theory Spec2Isabelle
  imports Main
begin

section \<open>Python values used by \<^verbatim>\<open>src/tasks/task_01.py\<close>\<close>

text \<open>
  Exceptions are values. \<open>OSError\<close>, its subclass \<open>FileNotFoundError\<close>, \<open>ValueError\<close>
  and \<open>RuntimeError\<close> derive from Python's \<open>Exception\<close>; \<open>SystemExit\<close>, \<open>KeyboardInterrupt\<close> and \<open>CancelledError\<close>
  derive from \<open>BaseException\<close> only. A call that may raise returns \<open>py_exc + 'a\<close>,
  with \<open>Inl\<close> the raised exception.
\<close>

datatype py_exc =
    ValueError string
  | OSError string
  | FileNotFoundError string
  | RuntimeError string
  | SystemExit int
  | KeyboardInterrupt
  | CancelledError

fun is_OSError :: "py_exc \<Rightarrow> bool" where
  "is_OSError (OSError m) = True"
| "is_OSError (FileNotFoundError m) = True"
| "is_OSError e = False"

fun is_Exception :: "py_exc \<Rightarrow> bool" where
  "is_Exception (SystemExit c) = False"
| "is_Exception KeyboardInterrupt = False"
| "is_Exception CancelledError = False"
| "is_Exception e = True"

fun str_exc :: "py_exc \<Rightarrow> string" where
  "str_exc (ValueError m) = m"
| "str_exc (OSError m) = m"
| "str_exc (FileNotFoundError m) = m"
| "str_exc (RuntimeError m) = m"
| "str_exc (SystemExit c) = []"
| "str_exc KeyboardInterrupt = []"
| "str_exc CancelledError = []"

datatype level = INFO | WARNING | ERROR

type_synonym log = "(level \<times> string) list"

subsection \<open>Strings\<close>

text \<open>\<open>str(n)\<close> for a non-negative integer: its decimal digits.\<close>

definition digit_char :: "nat \<Rightarrow> char" where
  "digit_char d = ''0123456789'' ! d"

function str_nat :: "nat \<Rightarrow> string" where
  "str_nat n = (if n < 10 then [digit_char n] else str_nat (n div 10) @ [digit_char (n mod 10)])"
  by pat_completeness auto
termination
  by (relation "measure id") auto

declare str_nat.simps [simp del]

text \<open>\<open>str.lower()\<close> on the ASCII letters (the characters of the model are bytes).\<close>

definition lower_char :: "char \<Rightarrow> char" where
  "lower_char c =
     (case map_of (zip ''ABCDEFGHIJKLMNOPQRSTUVWXYZ'' ''abcdefghijklmnopqrstuvwxyz'') c of
        Some l \<Rightarrow> l
      | None \<Rightarrow> c)"

definition lower :: "string \<Rightarrow> string" where
  "lower s = map lower_char s"

text \<open>\<open>s.rfind(c)\<close>: the last index of \<open>c\<close>; Python's \<open>-1\<close> is \<open>None\<close>.\<close>

fun rfind :: "char \<Rightarrow> string \<Rightarrow> nat option" where
  "rfind c [] = None"
| "rfind c (x # xs) =
     (case rfind c xs of
        Some i \<Rightarrow> Some (Suc i)
      | None \<Rightarrow> if x = c then Some 0 else None)"

text \<open>\<open>s.split(c)\<close>: the fields between the separators, empty fields kept.\<close>

fun split_sep :: "char \<Rightarrow> string \<Rightarrow> string list" where
  "split_sep c [] = [[]]"
| "split_sep c (x # xs) =
     (if x = c then [] # split_sep c xs
      else (case split_sep c xs of [] \<Rightarrow> [[x]] | w # ws \<Rightarrow> (x # w) # ws))"

fun join_sep :: "string \<Rightarrow> string list \<Rightarrow> string" where
  "join_sep s [] = []"
| "join_sep s [w] = w"
| "join_sep s (w # ws) = w @ s @ join_sep s ws"

section \<open>Paths: \<open>pathlib\<close>'s pure POSIX paths, which \<open>AsyncPath\<close> wraps\<close>

text \<open>
  A path is its root (\<open>''''\<close> for a relative path, \<open>''/''\<close>, or \<open>''//''\<close> for exactly two
  leading slashes) and its components. Parsing a string drops empty components and
  \<open>''.''\<close> components and keeps \<open>''..''\<close>, as \<open>PurePosixPath\<close> does.
\<close>

record path =
  root :: string
  parts :: "string list"

definition parse_root :: "string \<Rightarrow> string" where
  "parse_root s =
     (if take 2 s = ''//'' \<and> take 3 s \<noteq> ''///'' then ''//''
      else if take 1 s = ''/'' then ''/'' else [])"

definition parse_path :: "string \<Rightarrow> path" where
  "parse_path s =
     \<lparr>root = parse_root s,
      parts = filter (\<lambda>w. w \<noteq> [] \<and> w \<noteq> ''.'') (split_sep CHR ''/'' s)\<rparr>"

definition is_absolute :: "path \<Rightarrow> bool" where
  "is_absolute p = (root p \<noteq> [])"

text \<open>\<open>p / q\<close>: an absolute right operand replaces the left one.\<close>

definition joinpath :: "path \<Rightarrow> path \<Rightarrow> path" where
  "joinpath p q =
     (if root q \<noteq> [] then q else \<lparr>root = root p, parts = parts p @ parts q\<rparr>)"

definition name :: "path \<Rightarrow> string" where
  "name p = (if parts p = [] then [] else last (parts p))"

definition parent :: "path \<Rightarrow> path" where
  "parent p = p\<lparr>parts := butlast (parts p)\<rparr>"

text \<open>
  \<open>PurePath.suffix\<close> and \<open>PurePath.stem\<close> (CPython 3.9 to 3.13, the versions
  \<open>aiopath\<close> runs on): with \<open>i = name.rfind('.')\<close>, the suffix is \<open>name[i:]\<close> when
  \<open>0 < i < len(name) - 1\<close> and empty otherwise; the stem is the rest of the name.
\<close>

definition has_suffix :: "string \<Rightarrow> bool" where
  "has_suffix nm = (case rfind CHR ''.'' nm of
                      Some i \<Rightarrow> 0 < i \<and> i + 1 < length nm
                    | None \<Rightarrow> False)"

definition suffix_of :: "string \<Rightarrow> string" where
  "suffix_of nm = (if has_suffix nm then drop (the (rfind CHR ''.'' nm)) nm else [])"

definition stem_of :: "string \<Rightarrow> string" where
  "stem_of nm = (if has_suffix nm then take (the (rfind CHR ''.'' nm)) nm else nm)"

definition suffix :: "path \<Rightarrow> string" where
  "suffix p = suffix_of (name p)"

definition stem :: "path \<Rightarrow> string" where
  "stem p = stem_of (name p)"

text \<open>
  \<open>PurePath.with_name\<close> raises \<open>ValueError\<close> when the path has no name or when the
  new name is empty, ends with the separator, has a root, or does not parse to exactly
  one component. \<open>with_stem(s)\<close> is \<open>with_name(s + self.suffix)\<close>.
\<close>

definition with_name :: "path \<Rightarrow> string \<Rightarrow> py_exc + path" where
  "with_name p nm =
     (if name p = [] then Inl (ValueError ''empty name'')
      else if nm = [] \<or> last nm = CHR ''/'' \<or> root (parse_path nm) \<noteq> []
              \<or> length (parts (parse_path nm)) \<noteq> 1
      then Inl (ValueError ''Invalid name'')
      else Inr (p\<lparr>parts := butlast (parts p) @ [nm]\<rparr>))"

definition with_stem :: "path \<Rightarrow> string \<Rightarrow> py_exc + path" where
  "with_stem p s = with_name p (s @ suffix p)"

definition as_posix :: "path \<Rightarrow> string" where
  "as_posix p = (if root p = [] \<and> parts p = [] then ''.''
                 else root p @ join_sep ''/'' (parts p))"

text \<open>A string or a path object, as the parameters typed \<open>Union[AsyncPath, str]\<close> take.\<close>

datatype pathlike = PStr string | PObj path

fun to_path :: "pathlike \<Rightarrow> path" where
  "to_path (PStr s) = parse_path s"
| "to_path (PObj p) = p"

text \<open>Python truthiness: an empty string is false, a path object is always true.\<close>

fun truthy :: "pathlike \<Rightarrow> bool" where
  "truthy (PStr s) = (s \<noteq> [])"
| "truthy (PObj p) = True"

section \<open>\<open>get_absolute_path\<close>\<close>

text \<open>
  The working directory \<open>cwd\<close> is what \<open>AsyncPath.cwd()\<close> returns; \<open>current_dir\<close> is
  \<open>None\<close> when the argument is left out.
\<close>

definition get_absolute_path :: "path \<Rightarrow> pathlike \<Rightarrow> pathlike option \<Rightarrow> py_exc + path" where
  "get_absolute_path cwd p current_dir =
     (if \<not> truthy p then Inl (ValueError ''The path can not be empty'')
      else if is_absolute (to_path p) then Inr (to_path p)
      else Inr (joinpath (case current_dir of Some d \<Rightarrow> to_path d | None \<Rightarrow> cwd) (to_path p)))"

section \<open>The file system\<close>

text \<open>
  A file system maps the paths that exist to what is there: a regular file with its
  bytes, or a directory. \<open>exists\<close> is \<open>Path.exists()\<close>.
\<close>

datatype node = File string | Dir

type_synonym fs = "path \<rightharpoonup> node"

definition exists :: "fs \<Rightarrow> path \<Rightarrow> bool" where
  "exists fs p = (fs p \<noteq> None)"

section \<open>\<open>file_path_build\<close>\<close>

text \<open>Lines 55 to 57: the extension, the stem and the first candidate.\<close>

definition file_extension :: "path \<Rightarrow> string" where
  "file_extension file = (if take 1 (suffix file) = ''.'' then drop 1 (suffix file) else suffix file)"

definition first_candidate :: "path \<Rightarrow> path \<Rightarrow> path" where
  "first_candidate file dest =
     joinpath
       (joinpath dest
          (parse_path (if file_extension file \<noteq> [] then file_extension file
                       else ''without_extension'')))
       (parse_path (stem file @ ''.'' @ file_extension file))"

text \<open>The new stem of line 64, \<open>f"{file_name} ({rename_tries})"\<close>.\<close>

definition indexed_stem :: "string \<Rightarrow> nat \<Rightarrow> string" where
  "indexed_stem file_name rename_tries = file_name @ '' ('' @ str_nat rename_tries @ '')''"

text \<open>
  Lines 60 to 66: the loop, which may run forever on a file system where every
  candidate exists, so not returning is the value \<open>None\<close>.
\<close>

partial_function (option) rename_loop ::
  "fs \<Rightarrow> string \<Rightarrow> nat \<Rightarrow> path \<Rightarrow> (py_exc + path) option" where
  "rename_loop fs file_name rename_tries new_file_name =
     (if exists fs new_file_name then
        (case with_stem new_file_name (indexed_stem file_name (Suc rename_tries)) of
           Inl e \<Rightarrow> Some (Inl e)
         | Inr p \<Rightarrow> rename_loop fs file_name (Suc rename_tries) p)
      else Some (Inr new_file_name))"

definition file_path_build :: "fs \<Rightarrow> path \<Rightarrow> path \<Rightarrow> (py_exc + path) option" where
  "file_path_build fs file dest = rename_loop fs (stem file) 0 (first_candidate file dest)"

section \<open>\<open>read_folder\<close>\<close>

text \<open>
  The source tree as the walk sees it. A directory holds the children its listing
  yields, in that order, and the exception the listing raises after them, if any. Each
  child carries its name, whether the directory entry itself is a symbolic link, and
  what \<open>os.stat\<close>, which follows links, finds there: \<open>Missing\<close> is a dangling link
  or a vanished entry, \<open>Special\<close> a device, socket or pipe, \<open>Unstatable x\<close> an entry
  whose \<open>stat\<close> raises \<open>x\<close>, \<open>Unsteady x\<close> an entry that the \<open>stat\<close> of \<open>is_dir()\<close>
  finds not to be a directory and on which the \<open>stat\<close> of \<open>is_file()\<close> then raises
  \<open>x\<close>.
\<close>

datatype entry =
    RegularFile
  | Directory "(string \<times> bool \<times> entry) list" "py_exc option"
  | Special
  | Missing
  | Unstatable py_exc
  | Unsteady py_exc

text \<open>
  \<open>Path.is_dir()\<close> and \<open>Path.is_file()\<close> call \<open>stat\<close>: they answer for the target of
  a link, return \<open>False\<close> for a missing entry and let other errors through.
\<close>

fun is_dir :: "entry \<Rightarrow> py_exc + bool" where
  "is_dir (Directory cs err) = Inr True"
| "is_dir (Unstatable x) = Inl x"
| "is_dir e = Inr False"

fun is_file :: "entry \<Rightarrow> py_exc + bool" where
  "is_file RegularFile = Inr True"
| "is_file (Unstatable x) = Inl x"
| "is_file (Unsteady x) = Inl x"
| "is_file e = Inr False"

text \<open>What \<open>iterdir()\<close> raises on something that is not a directory.\<close>

fun iterdir_error :: "entry \<Rightarrow> py_exc" where
  "iterdir_error (Unstatable x) = x"
| "iterdir_error Missing = OSError ''No such file or directory''"
| "iterdir_error e = OSError ''Not a directory''"

definition child_path :: "path \<Rightarrow> string \<Rightarrow> path" where
  "child_path p n = p\<lparr>parts := parts p @ [n]\<rparr>"

text \<open>
  The state of a try block when it is left: the pending exception, if one was raised,
  and the variables. \<open>except OSError\<close> handles a pending \<open>OSError\<close> only; a
  \<open>return\<close> inside \<open>finally\<close> discards whatever is still pending.
\<close>

definition except_OSError ::
  "py_exc option \<times> 's \<Rightarrow> (py_exc \<Rightarrow> 's \<Rightarrow> 's) \<Rightarrow> py_exc option \<times> 's" where
  "except_OSError r handler =
     (case fst r of
        Some x \<Rightarrow> if is_OSError x then (None, handler x (snd r)) else r
      | None \<Rightarrow> r)"

definition finally_return :: "py_exc option \<times> 's \<Rightarrow> ('s \<Rightarrow> 'a) \<Rightarrow> (py_exc + 'a) \<times> 's" where
  "finally_return r v = (Inr (v (snd r)), snd r)"

definition folder_failed :: "path \<Rightarrow> py_exc \<Rightarrow> path list \<times> log \<Rightarrow> path list \<times> log" where
  "folder_failed source_folder e st =
     (fst st, snd st @ [(INFO, ''Failed to process folder '' @ [CHR 0x22]
                               @ as_posix source_folder @ [CHR 0x22] @ '': '' @ str_exc e)])"

text \<open>
  \<open>read_folder\<close> and the body of its \<open>async for\<close> loop over the children still to
  come. The loop returns the exception that left it, the files and the log.
\<close>

fun read_folder :: "path \<Rightarrow> entry \<Rightarrow> log \<Rightarrow> (py_exc + path list) \<times> log"
  and iterate :: "path \<Rightarrow> (string \<times> bool \<times> entry) list \<Rightarrow> py_exc option
                  \<Rightarrow> path list \<times> log \<Rightarrow> py_exc option \<times> path list \<times> log" where
  "read_folder source_folder (Directory cs err) lg =
     (case finally_return
             (except_OSError
                (iterate source_folder cs err
                   ([], lg @ [(INFO, ''Process folder: '' @ as_posix source_folder)]))
                (folder_failed source_folder))
             fst
      of (r, st) \<Rightarrow> (r, snd st))"
| "read_folder source_folder RegularFile lg =
     (case finally_return
             (except_OSError
                (Some (iterdir_error RegularFile),
                 ([], lg @ [(INFO, ''Process folder: '' @ as_posix source_folder)]))
                (folder_failed source_folder))
             fst
      of (r, st) \<Rightarrow> (r, snd st))"
| "read_folder source_folder Special lg =
     (case finally_return
             (except_OSError
                (Some (iterdir_error Special),
                 ([], lg @ [(INFO, ''Process folder: '' @ as_posix source_folder)]))
                (folder_failed source_folder))
             fst
      of (r, st) \<Rightarrow> (r, snd st))"
| "read_folder source_folder Missing lg =
     (case finally_return
             (except_OSError
                (Some (iterdir_error Missing),
                 ([], lg @ [(INFO, ''Process folder: '' @ as_posix source_folder)]))
                (folder_failed source_folder))
             fst
      of (r, st) \<Rightarrow> (r, snd st))"
| "read_folder source_folder (Unstatable x) lg =
     (case finally_return
             (except_OSError
                (Some (iterdir_error (Unstatable x)),
                 ([], lg @ [(INFO, ''Process folder: '' @ as_posix source_folder)]))
                (folder_failed source_folder))
             fst
      of (r, st) \<Rightarrow> (r, snd st))"
| "read_folder source_folder (Unsteady x) lg =
     (case finally_return
             (except_OSError
                (Some (iterdir_error (Unsteady x)),
                 ([], lg @ [(INFO, ''Process folder: '' @ as_posix source_folder)]))
                (folder_failed source_folder))
             fst
      of (r, st) \<Rightarrow> (r, snd st))"
| "iterate source_folder [] err st = (err, st)"
| "iterate source_folder ((n, link, e) # cs) err (files, lg) =
     (case is_dir e of
        Inl x \<Rightarrow> (Some x, files, lg)
      | Inr True \<Rightarrow>
          (case read_folder (child_path source_folder n) e lg of
             (Inl x, lg') \<Rightarrow> (Some x, files, lg')
           | (Inr sub, lg') \<Rightarrow> iterate source_folder cs err (files @ sub, lg'))
      | Inr False \<Rightarrow>
          (case is_file e of
             Inl x \<Rightarrow> (Some x, files, lg)
           | Inr True \<Rightarrow>
               iterate source_folder cs err (files @ [child_path source_folder n], lg)
           | Inr False \<Rightarrow>
               iterate source_folder cs err
                 (files, lg @ [(WARNING, ''Skip non-regular: ''
                                         @ as_posix (child_path source_folder n))])))"

section \<open>The lock registry \<open>_file_name_locks\<close>\<close>

text \<open>
  \<open>defaultdict(asyncio.Lock)\<close>: a lookup of a key that is not there calls
  \<open>asyncio.Lock()\<close>, stores the new object under the key and returns it. A lock
  object is identified by the number of locks created before it.
\<close>

record registry =
  table :: "string \<rightharpoonup> nat"
  created :: nat

definition empty_registry :: registry where
  "empty_registry = \<lparr>table = Map.empty, created = 0\<rparr>"

definition getitem :: "registry \<Rightarrow> string \<Rightarrow> nat \<times> registry" where
  "getitem reg k =
     (case table reg k of
        Some l \<Rightarrow> (l, reg)
      | None \<Rightarrow> (created reg, \<lparr>table = (table reg)(k \<mapsto> created reg),
                               created = Suc (created reg)\<rparr>))"

text \<open>Line 90 of \<open>copy_file\<close>: \<open>_file_name_locks[file.name.lower()]\<close>.\<close>

definition lock_of :: "registry \<Rightarrow> path \<Rightarrow> nat \<times> registry" where
  "lock_of reg file = getitem reg (lower (name file))"

text \<open>Line 90 run for one file after the other: the locks returned and the registry left.\<close>

fun locks_of :: "registry \<Rightarrow> path list \<Rightarrow> nat list \<times> registry" where
  "locks_of reg [] = ([], reg)"
| "locks_of reg (file # files) =
     (case lock_of reg file of
        (l, reg') \<Rightarrow> (case locks_of reg' files of (ls, reg'') \<Rightarrow> (l # ls, reg'')))"

section \<open>\<open>cli\<close>\<close>

text \<open>
  \<open>parser.parse_args()\<close> of line 134 is the standard library's. It returns the
  namespace, of which \<open>cli\<close> reads \<open>source\<close> and \<open>output\<close>, or it raises: the help
  action prints the help and raises \<open>SystemExit(0)\<close>, a usage error is printed and
  raises \<open>SystemExit(2)\<close>. The body of \<open>cli\<close> is modelled on that outcome, whatever
  command line produced it.
\<close>

type_synonym parsed = "py_exc + string \<times> string"

text \<open>\<open>except Exception\<close> handles a pending exception of class \<open>Exception\<close> only.\<close>

definition except_Exception ::
  "py_exc option \<times> 's \<Rightarrow> (py_exc \<Rightarrow> 's \<Rightarrow> 's) \<Rightarrow> py_exc option \<times> 's" where
  "except_Exception r handler =
     (case fst r of
        Some x \<Rightarrow> if is_Exception x then (None, handler x (snd r)) else r
      | None \<Rightarrow> r)"

text \<open>
  \<open>cli\<close>, where \<open>args\<close> is what \<open>parser.parse_args()\<close> does and \<open>run source output\<close>
  is the exception \<open>asyncio.run(folder_copy(source, output))\<close> raises, if it raises
  one. \<open>cli\<close> never returns: it ends with the \<open>SystemExit\<close> of \<open>exit(0)\<close> or with the
  exception that escapes the try statement, and the interpreter exits with the code of
  a \<open>SystemExit\<close>.
\<close>

definition cli_body :: "parsed \<Rightarrow> (string \<Rightarrow> string \<Rightarrow> py_exc option) \<Rightarrow> log
                        \<Rightarrow> py_exc option \<times> log" where
  "cli_body args run lg =
     (case args of
        Inl x \<Rightarrow> (Some x, lg)
      | Inr (source, output) \<Rightarrow>
          (case run source output of
             Some x \<Rightarrow> (Some x, lg)
           | None \<Rightarrow> (None, lg @ [(INFO, ''File copying completed'')])))"

definition cli :: "parsed \<Rightarrow> (string \<Rightarrow> string \<Rightarrow> py_exc option) \<Rightarrow> py_exc \<times> log" where
  "cli args run =
     (case except_Exception (cli_body args run []) (\<lambda>e lg. lg @ [(ERROR, str_exc e)]) of
        (Some x, lg) \<Rightarrow> (x, lg)
      | (None, lg) \<Rightarrow> (SystemExit 0, lg))"

text \<open>
  What \<open>argparse\<close> does with the parser of lines 128 to 132 (the options \<open>-s\<close>,
  \<open>--source\<close>, required, and \<open>-o\<close>, \<open>--output\<close>, default \<open>dist\<close>, each taking one
  value, and the \<open>-h\<close>, \<open>--help\<close> that \<open>ArgumentParser\<close> adds) on a plain command
  line: one where every argument that starts with \<open>-\<close> is one of these six option
  strings, spelled in full. Abbreviated options, \<open>--source=X\<close>, \<open>-sX\<close>, \<open>--\<close> and
  arguments such as \<open>-1\<close> are not modelled: \<open>parse_args\<close> is \<open>None\<close> there.

  The arguments are consumed from the left. The help action ends the process as soon
  as it is reached. An option that takes a value needs a next argument that does not
  start with \<open>-\<close>, otherwise the usage error \<open>expected one argument\<close> is raised at once;
  a later occurrence of an option replaces the value of an earlier one. An argument
  that belongs to no option is set aside. At the end a missing \<open>--source\<close> is a usage
  error, and so is any argument set aside (\<open>unrecognized arguments\<close>).
\<close>

definition is_help :: "string \<Rightarrow> bool" where
  "is_help a = (a = ''-h'' \<or> a = ''--help'')"

definition is_source :: "string \<Rightarrow> bool" where
  "is_source a = (a = ''-s'' \<or> a = ''--source'')"

definition is_output :: "string \<Rightarrow> bool" where
  "is_output a = (a = ''-o'' \<or> a = ''--output'')"

definition option_like :: "string \<Rightarrow> bool" where
  "option_like a = (take 1 a = ''-'')"

definition plain :: "string \<Rightarrow> bool" where
  "plain a = (\<not> option_like a \<or> is_help a \<or> is_source a \<or> is_output a)"

fun parse_loop :: "string list \<Rightarrow> string option \<Rightarrow> string \<Rightarrow> bool \<Rightarrow> parsed" where
  "parse_loop [] None output extras = Inl (SystemExit 2)"
| "parse_loop [] (Some source) output extras =
     (if extras then Inl (SystemExit 2) else Inr (source, output))"
| "parse_loop [a] source output extras =
     (if is_help a then Inl (SystemExit 0)
      else if is_source a \<or> is_output a then Inl (SystemExit 2)
      else parse_loop [] source output True)"
| "parse_loop (a # v # rest) source output extras =
     (if is_help a then Inl (SystemExit 0)
      else if is_source a then
        (if option_like v then Inl (SystemExit 2) else parse_loop rest (Some v) output extras)
      else if is_output a then
        (if option_like v then Inl (SystemExit 2) else parse_loop rest source v extras)
      else parse_loop (v # rest) source output True)"

definition parse_args :: "string list \<Rightarrow> parsed option" where
  "parse_args argv =
     (if list_all plain argv then Some (parse_loop argv None ''dist'' False) else None)"

text \<open>\<open>cli\<close> started with the command line \<open>argv\<close>, where that command line is plain.\<close>

definition cli_argv :: "string list \<Rightarrow> (string \<Rightarrow> string \<Rightarrow> py_exc option)
                        \<Rightarrow> (py_exc \<times> log) option" where
  "cli_argv argv run = map_option (\<lambda>args. cli args run) (parse_args argv)"

text \<open>
  The registries that a run can reach: distinct keys hold distinct locks, and every lock
  in the table was created.
\<close>

definition reg_ok :: "registry \<Rightarrow> bool" where
  "reg_ok reg = (inj_on (table reg) (dom (table reg)) \<and> (\<forall>k l. table reg k = Some l \<longrightarrow> l < created reg))"

section \<open>\<open>copy_file\<close> and \<open>folder_copy\<close>: the copy workers\<close>

subsection \<open>The calls that change the file system\<close>

text \<open>
  The path without components is the root directory (or the working directory), which is
  always there. \<open>os.mkdir\<close> creates one directory and raises \<open>FileExistsError\<close>,
  \<open>FileNotFoundError\<close> or \<open>NotADirectoryError\<close>.
\<close>

definition is_dir_at :: "fs \<Rightarrow> path \<Rightarrow> bool" where
  "is_dir_at fs p = (parts p = [] \<or> fs p = Some Dir)"

definition file_exists_error :: py_exc where
  "file_exists_error = OSError ''File exists''"

definition no_such_file :: py_exc where
  "no_such_file = FileNotFoundError ''No such file or directory''"

definition not_a_directory :: py_exc where
  "not_a_directory = OSError ''Not a directory''"

definition is_a_directory :: py_exc where
  "is_a_directory = OSError ''Is a directory''"

definition same_file :: py_exc where
  "same_file = OSError ''are the same file''"

fun is_FileNotFoundError :: "py_exc \<Rightarrow> bool" where
  "is_FileNotFoundError (FileNotFoundError m) = True"
| "is_FileNotFoundError e = False"

definition os_mkdir :: "fs \<Rightarrow> path \<Rightarrow> py_exc + fs" where
  "os_mkdir fs p =
     (if parts p = [] \<or> fs p \<noteq> None then Inl file_exists_error
      else if is_dir_at fs (parent p) then Inr (fs(p \<mapsto> Dir))
      else if fs (parent p) = None then Inl no_such_file
      else Inl not_a_directory)"

text \<open>
  \<open>Path.mkdir(parents=True, exist_ok=True)\<close>: on \<open>FileNotFoundError\<close> it creates the
  parent the same way and then the directory itself with \<open>parents=False\<close>; any other
  \<open>OSError\<close> is passed over when the path is a directory.
\<close>

definition mkdir_exist_ok :: "fs \<Rightarrow> path \<Rightarrow> py_exc + fs" where
  "mkdir_exist_ok fs p =
     (case os_mkdir fs p of
        Inr fs' \<Rightarrow> Inr fs'
      | Inl e \<Rightarrow> if \<not> is_FileNotFoundError e \<and> is_dir_at fs p then Inr fs else Inl e)"

function mkdir_parents :: "fs \<Rightarrow> path \<Rightarrow> py_exc + fs" where
  "mkdir_parents fs p =
     (case os_mkdir fs p of
        Inr fs' \<Rightarrow> Inr fs'
      | Inl e \<Rightarrow>
          if is_FileNotFoundError e then
            (if parts p = [] then Inl e
             else (case mkdir_parents fs (parent p) of
                     Inl e' \<Rightarrow> Inl e'
                   | Inr fs' \<Rightarrow> mkdir_exist_ok fs' p))
          else if is_dir_at fs p then Inr fs else Inl e)"
  by pat_completeness auto
termination
  by (relation "measure (\<lambda>(fs, p). length (parts p))") (auto simp: parent_def)

declare mkdir_parents.simps [simp del]

text \<open>
  \<open>shutil.copyfile(src, dst)\<close>: it refuses to copy a file onto itself, opens the source
  for reading and the destination for writing, and replaces what a destination file
  held.
\<close>

definition copyfile :: "fs \<Rightarrow> path \<Rightarrow> path \<Rightarrow> py_exc + fs" where
  "copyfile fs src dst =
     (if src = dst then Inl same_file
      else (case fs src of
              None \<Rightarrow> Inl no_such_file
            | Some Dir \<Rightarrow> Inl is_a_directory
            | Some (File bytes) \<Rightarrow>
                if fs dst = Some Dir then Inl is_a_directory
                else if is_dir_at fs (parent dst) then Inr (fs(dst \<mapsto> File bytes))
                else if fs (parent dst) = None then Inl no_such_file
                else Inl not_a_directory))"

subsection \<open>The workers as a transition system\<close>

text \<open>
  \<open>asyncio.gather\<close> runs one \<open>copy_file\<close> task per file on one event loop. A task is
  suspended only at an \<open>await\<close>: at the lock, at \<open>exists()\<close>, at \<open>mkdir()\<close> and at
  \<open>copyfile()\<close>; each of these calls takes effect at one instant, and between two of
  them any other task may run. A task is at one of these points:
  \<^item> \<open>Start\<close>: before line 90;
  \<^item> \<open>Waiting l\<close>: it has the lock object \<open>l\<close> of its name and waits at \<open>async with\<close>;
  \<^item> \<open>Probing l n c\<close>: it holds \<open>l\<close> and is about to ask whether the candidate \<open>c\<close>
    exists, with \<open>rename_tries = n\<close>;
  \<^item> \<open>Making l c\<close>: \<open>file_path_build\<close> has returned \<open>c\<close>, line 96 comes next;
  \<^item> \<open>Copying l c\<close>: line 98 comes next;
  \<^item> \<open>Finished r\<close>: the task has ended: it copied to \<open>c\<close>, it caught and logged the
    \<open>OSError\<close> of \<open>mkdir\<close> or \<open>copyfile\<close>, or it raised an exception to \<open>gather\<close>.
\<close>

datatype outcome = Copied path | Failed path py_exc | Raised py_exc

datatype pc =
    Start
  | Waiting nat
  | Probing nat nat path
  | Making nat path
  | Copying nat path
  | Finished outcome

record world =
  fsys :: fs
  locks :: registry
  held :: "nat set"
  logged :: log
  tasks :: "(path \<times> pc) list"

definition file_of :: "world \<Rightarrow> nat \<Rightarrow> path" where
  "file_of w i = fst (tasks w ! i)"

definition pc_of :: "world \<Rightarrow> nat \<Rightarrow> pc" where
  "pc_of w i = snd (tasks w ! i)"

definition set_pc :: "nat \<Rightarrow> pc \<Rightarrow> world \<Rightarrow> world" where
  "set_pc i q w = w\<lparr>tasks := (tasks w)[i := (fst (tasks w ! i), q)]\<rparr>"

definition copy_done :: "path \<Rightarrow> path \<Rightarrow> level \<times> string" where
  "copy_done file new_file =
     (INFO, ''File: '' @ as_posix file @ '' copied to '' @ as_posix new_file)"

definition copy_failed :: "path \<Rightarrow> path \<Rightarrow> py_exc \<Rightarrow> level \<times> string" where
  "copy_failed file new_file e =
     (ERROR, ''Failed to copy file '' @ [CHR 0x22] @ as_posix file @ [CHR 0x22] @ '' to ''
             @ [CHR 0x22] @ as_posix new_file @ [CHR 0x22] @ '': '' @ str_exc e)"

text \<open>
  What a call that raises may leave behind. \<open>mkdir(parents=True)\<close> creates the missing
  ancestors one after the other, so some of them may be there when it raises;
  \<open>copyfile\<close> raises before it opens the destination, or after it has opened it for
  writing, with some part of the bytes written.
\<close>

definition dirs_added :: "fs \<Rightarrow> fs \<Rightarrow> bool" where
  "dirs_added fs fs' = (\<forall>p. fs' p = fs p \<or> (fs p = None \<and> fs' p = Some Dir))"

definition copy_interrupted :: "fs \<Rightarrow> path \<Rightarrow> fs \<Rightarrow> bool" where
  "copy_interrupted fs dst fs' =
     (fs' = fs \<or> (fs dst \<noteq> Some Dir \<and> (\<exists>part. fs' = fs(dst \<mapsto> File part))))"

text \<open>
  One step of task \<open>i\<close>, for the destination \<open>folder\<close>. \<open>exists()\<close>, \<open>mkdir()\<close> and
  \<open>copyfile()\<close> may raise any \<open>OSError\<close> at any time (permissions, quota, a failing
  disk). The \<open>OSError\<close> of \<open>exists()\<close> is raised in \<open>file_path_build\<close>, outside the
  try statement, and leaves the task; those of \<open>mkdir()\<close> and \<open>copyfile()\<close> are caught
  by line 100 and logged by line 101. Leaving \<open>async with\<close> releases the lock on every
  path.
\<close>

inductive step :: "path \<Rightarrow> nat \<Rightarrow> world \<Rightarrow> world \<Rightarrow> bool" for folder :: path where
  look_up:
    "\<lbrakk>i < length (tasks w); pc_of w i = Start; lock_of (locks w) (file_of w i) = (l, reg)\<rbrakk>
     \<Longrightarrow> step folder i w (set_pc i (Waiting l) (w\<lparr>locks := reg\<rparr>))"
| acquire:
    "\<lbrakk>i < length (tasks w); pc_of w i = Waiting l; l \<notin> held w\<rbrakk>
     \<Longrightarrow> step folder i w
           (set_pc i (Probing l 0 (first_candidate (file_of w i) folder))
              (w\<lparr>held := insert l (held w)\<rparr>))"
| probe_taken:
    "\<lbrakk>i < length (tasks w); pc_of w i = Probing l n c; exists (fsys w) c;
      with_stem c (indexed_stem (stem (file_of w i)) (Suc n)) = Inr c'\<rbrakk>
     \<Longrightarrow> step folder i w (set_pc i (Probing l (Suc n) c') w)"
| probe_invalid:
    "\<lbrakk>i < length (tasks w); pc_of w i = Probing l n c; exists (fsys w) c;
      with_stem c (indexed_stem (stem (file_of w i)) (Suc n)) = Inl e\<rbrakk>
     \<Longrightarrow> step folder i w (set_pc i (Finished (Raised e)) (w\<lparr>held := held w - {l}\<rparr>))"
| probe_free:
    "\<lbrakk>i < length (tasks w); pc_of w i = Probing l n c; \<not> exists (fsys w) c\<rbrakk>
     \<Longrightarrow> step folder i w (set_pc i (Making l c) w)"
| probe_raises:
    "\<lbrakk>i < length (tasks w); pc_of w i = Probing l n c; is_OSError e\<rbrakk>
     \<Longrightarrow> step folder i w (set_pc i (Finished (Raised e)) (w\<lparr>held := held w - {l}\<rparr>))"
| mkdir_ok:
    "\<lbrakk>i < length (tasks w); pc_of w i = Making l c;
      mkdir_parents (fsys w) (parent c) = Inr fs'\<rbrakk>
     \<Longrightarrow> step folder i w (set_pc i (Copying l c) (w\<lparr>fsys := fs'\<rparr>))"
| mkdir_raises:
    "\<lbrakk>i < length (tasks w); pc_of w i = Making l c; is_OSError e; dirs_added (fsys w) fs'\<rbrakk>
     \<Longrightarrow> step folder i w
           (set_pc i (Finished (Failed c e))
              (w\<lparr>fsys := fs', held := held w - {l},
                 logged := logged w @ [copy_failed (file_of w i) c e]\<rparr>))"
| copy_ok:
    "\<lbrakk>i < length (tasks w); pc_of w i = Copying l c;
      copyfile (fsys w) (file_of w i) c = Inr fs'\<rbrakk>
     \<Longrightarrow> step folder i w
           (set_pc i (Finished (Copied c))
              (w\<lparr>fsys := fs', held := held w - {l},
                 logged := logged w @ [copy_done (file_of w i) c]\<rparr>))"
| copy_raises:
    "\<lbrakk>i < length (tasks w); pc_of w i = Copying l c; is_OSError e;
      copy_interrupted (fsys w) c fs'\<rbrakk>
     \<Longrightarrow> step folder i w
           (set_pc i (Finished (Failed c e))
              (w\<lparr>fsys := fs', held := held w - {l},
                 logged := logged w @ [copy_failed (file_of w i) c e]\<rparr>))"

text \<open>
  \<open>folder_copy\<close> after the walk: the tasks \<open>gather\<close> starts on the files found, in a
  process whose registry is still empty, and the worlds a run can reach from there.
\<close>

definition start :: "fs \<Rightarrow> path list \<Rightarrow> world" where
  "start fs files =
     \<lparr>fsys = fs, locks = empty_registry, held = {}, logged = [],
      tasks = map (\<lambda>file. (file, Start)) files\<rparr>"

definition reaches :: "path \<Rightarrow> world \<Rightarrow> world \<Rightarrow> bool" where
  "reaches folder = (\<lambda>w w'. \<exists>i. step folder i w w')\<^sup>*\<^sup>*"





text \<open>The candidates the loop of \<open>file_path_build\<close> goes through, by \<open>rename_tries\<close>.\<close>

fun candidate :: "path \<Rightarrow> path \<Rightarrow> nat \<Rightarrow> py_exc + path" where
  "candidate file dest 0 = Inr (first_candidate file dest)"
| "candidate file dest (Suc n) =
     (case candidate file dest n of
        Inl e \<Rightarrow> Inl e
      | Inr c \<Rightarrow> with_stem c (indexed_stem (stem file) (Suc n)))"

text \<open>
  A schedule is the list of the tasks that take the next step, one after the other.
  \<open>fire\<close> lets task \<open>i\<close> take its step, with \<open>mkdir\<close> and \<open>copyfile\<close> failing only as the
  file system in the world makes them fail; a task that cannot move leaves \<open>None\<close>.
\<close>

definition fire :: "path \<Rightarrow> nat \<Rightarrow> world \<Rightarrow> world option" where
  "fire folder i w =
     (if i < length (tasks w) then
        (case pc_of w i of
           Start \<Rightarrow>
             (case lock_of (locks w) (file_of w i) of
                (l, reg) \<Rightarrow> Some (set_pc i (Waiting l) (w\<lparr>locks := reg\<rparr>)))
         | Waiting l \<Rightarrow>
             if l \<in> held w then None
             else Some (set_pc i (Probing l 0 (first_candidate (file_of w i) folder))
                          (w\<lparr>held := insert l (held w)\<rparr>))
         | Probing l n c \<Rightarrow>
             if exists (fsys w) c then
               (case with_stem c (indexed_stem (stem (file_of w i)) (Suc n)) of
                  Inr c' \<Rightarrow> Some (set_pc i (Probing l (Suc n) c') w)
                | Inl e \<Rightarrow> Some (set_pc i (Finished (Raised e)) (w\<lparr>held := held w - {l}\<rparr>)))
             else Some (set_pc i (Making l c) w)
         | Making l c \<Rightarrow>
             (case mkdir_parents (fsys w) (parent c) of
                Inr fs' \<Rightarrow> Some (set_pc i (Copying l c) (w\<lparr>fsys := fs'\<rparr>))
              | Inl e \<Rightarrow>
                  if is_OSError e then
                    Some (set_pc i (Finished (Failed c e))
                            (w\<lparr>held := held w - {l},
                               logged := logged w @ [copy_failed (file_of w i) c e]\<rparr>))
                  else None)
         | Copying l c \<Rightarrow>
             (case copyfile (fsys w) (file_of w i) c of
                Inr fs' \<Rightarrow>
                  Some (set_pc i (Finished (Copied c))
                          (w\<lparr>fsys := fs', held := held w - {l},
                             logged := logged w @ [copy_done (file_of w i) c]\<rparr>))
              | Inl e \<Rightarrow>
                  if is_OSError e then
                    Some (set_pc i (Finished (Failed c e))
                            (w\<lparr>held := held w - {l},
                               logged := logged w @ [copy_failed (file_of w i) c e]\<rparr>))
                  else None)
         | Finished r \<Rightarrow> None)
      else None)"

fun fire_all :: "path \<Rightarrow> nat list \<Rightarrow> world \<Rightarrow> world option" where
  "fire_all folder [] w = Some w"
| "fire_all folder (i # schedule) w =
     (case fire folder i w of
        None \<Rightarrow> None
      | Some w' \<Rightarrow> fire_all folder schedule w')"

subsection \<open>What the workers hold and where they copy\<close>

text \<open>
  The lock a task holds, between entering \<open>async with\<close> and leaving it, and the lock
  object it has looked up; the path it has copied its file to, and the path
  \<open>file_path_build\<close> has returned to it (lines 96 and 98 write there and nowhere
  else). \<open>key\<close> is the key of line 90.
\<close>

fun holds :: "pc \<Rightarrow> nat option" where
  "holds (Probing l n c) = Some l"
| "holds (Making l c) = Some l"
| "holds (Copying l c) = Some l"
| "holds q = None"

fun knows :: "pc \<Rightarrow> nat option" where
  "knows (Waiting l) = Some l"
| "knows q = holds q"

fun copied :: "pc \<Rightarrow> path option" where
  "copied (Finished (Copied c)) = Some c"
| "copied q = None"

fun target :: "pc \<Rightarrow> path option" where
  "target (Making l c) = Some c"
| "target (Copying l c) = Some c"
| "target q = copied q"

definition key :: "world \<Rightarrow> nat \<Rightarrow> string" where
  "key w i = lower (name (file_of w i))"

text \<open>
  What holds in every world that a run reaches:
  \<^item> the registry is well formed, and the lock a task has is the one stored under the
    key of its file;
  \<^item> a lock that a task holds is marked as held, and no two tasks hold the same lock;
  \<^item> a lock that is marked as held is held by a task;
  \<^item> a path to which a task has copied exists;
  \<^item> of two tasks with the same key, one has not copied to the path the other copies
    or has copied to;
  \<^item> the path a task probes with \<open>rename_tries = n\<close> is the candidate number \<open>n\<close> of
    its file, and the path it copies to is one of the candidates;
  \<^item> what was in the file system \<open>fs\<close> at the start is unchanged, and the path a task
    copies to was free then.
\<close>

definition inv_knows :: "world \<Rightarrow> bool" where
  "inv_knows w = (reg_ok (locks w) \<and>
     (\<forall>i<length (tasks w). \<forall>l. knows (pc_of w i) = Some l \<longrightarrow> table (locks w) (key w i) = Some l))"

definition inv_mutex :: "world \<Rightarrow> bool" where
  "inv_mutex w = ((\<forall>i<length (tasks w). \<forall>l. holds (pc_of w i) = Some l \<longrightarrow> l \<in> held w) \<and>
     (\<forall>i<length (tasks w). \<forall>j<length (tasks w). \<forall>l.
            i \<noteq> j \<longrightarrow> holds (pc_of w i) = Some l \<longrightarrow> holds (pc_of w j) \<noteq> Some l))"

definition inv_copied :: "world \<Rightarrow> bool" where
  "inv_copied w = (\<forall>i<length (tasks w). \<forall>c. copied (pc_of w i) = Some c \<longrightarrow> exists (fsys w) c)"

definition inv_distinct :: "world \<Rightarrow> bool" where
  "inv_distinct w = (\<forall>i<length (tasks w). \<forall>j<length (tasks w). \<forall>c.
            i \<noteq> j \<longrightarrow> key w i = key w j \<longrightarrow> copied (pc_of w i) = Some c
            \<longrightarrow> target (pc_of w j) \<noteq> Some c)"

definition inv_owner :: "world \<Rightarrow> bool" where
  "inv_owner w = (\<forall>l\<in>held w. \<exists>i<length (tasks w). holds (pc_of w i) = Some l)"

definition inv_cand :: "path \<Rightarrow> world \<Rightarrow> bool" where
  "inv_cand folder w = (\<forall>i<length (tasks w). \<forall>c.
      (\<forall>l n. pc_of w i = Probing l n c \<longrightarrow> candidate (file_of w i) folder n = Inr c)
      \<and> (target (pc_of w i) = Some c \<longrightarrow> (\<exists>n. candidate (file_of w i) folder n = Inr c)))"

definition inv_fresh :: "fs \<Rightarrow> world \<Rightarrow> bool" where
  "inv_fresh fs w = ((\<forall>p. fs p \<noteq> None \<longrightarrow> fsys w p = fs p)
      \<and> (\<forall>i<length (tasks w). \<forall>c. target (pc_of w i) = Some c \<longrightarrow> fs c = None))"

definition inv :: "path \<Rightarrow> fs \<Rightarrow> path list \<Rightarrow> world \<Rightarrow> bool" where
  "inv folder fs files w =
     (map fst (tasks w) = files \<and> inv_knows w \<and> inv_mutex w \<and> inv_owner w \<and> inv_copied w
      \<and> inv_distinct w \<and> inv_cand folder w \<and> inv_fresh fs w)"

section \<open>Properties\<close>

subsection \<open>Names and paths\<close>

lemma split_sep_none: "c \<notin> set s \<Longrightarrow> split_sep c s = [s]"
  by (induction s) auto

lemma parse_path_single:
  assumes "CHR ''/'' \<notin> set s" "s \<noteq> []" "s \<noteq> ''.''"
  shows "parse_path s = \<lparr>root = [], parts = [s]\<rparr>"
proof -
  obtain x xs where s: "s = x # xs" using assms(2) by (cases s) auto
  with assms(1) have "x \<noteq> CHR ''/''" by auto
  then have "parse_root s = []" by (simp add: parse_root_def s)
  then show ?thesis using assms by (simp add: parse_path_def split_sep_none)
qed

lemma rfind_Some: "rfind c s = Some i \<Longrightarrow> i < length s \<and> s ! i = c \<and> c \<notin> set (drop (Suc i) s)"
proof (induction s arbitrary: i)
  case Nil then show ?case by simp
next
  case (Cons x xs)
  show ?case
  proof (cases "rfind c xs")
    case None
    then have "c \<notin> set xs" by (induction xs) (auto split: option.splits if_splits)
    with Cons.prems None show ?thesis by (auto split: if_splits)
  next
    case (Some j)
    with Cons.prems have "i = Suc j" by simp
    with Cons.IH[OF Some] show ?thesis by simp
  qed
qed

lemma suffix_of_shape:
  assumes "has_suffix nm"
  shows "\<exists>ext. suffix_of nm = CHR ''.'' # ext \<and> ext \<noteq> [] \<and> CHR ''.'' \<notin> set ext
           \<and> stem_of nm \<noteq> [] \<and> nm = stem_of nm @ CHR ''.'' # ext"
proof -
  from assms obtain i where i: "rfind CHR ''.'' nm = Some i" "0 < i" "i + 1 < length nm"
    by (auto simp: has_suffix_def split: option.splits)
  from rfind_Some[OF i(1)] have r: "nm ! i = CHR ''.''" "CHR ''.'' \<notin> set (drop (Suc i) nm)" by auto
  have il: "i < length nm" using i by simp
  have d: "drop i nm = CHR ''.'' # drop (Suc i) nm"
    using Cons_nth_drop_Suc[OF il] r(1) by simp
  have "nm = take i nm @ drop i nm" by simp
  then have e: "nm = take i nm @ CHR ''.'' # drop (Suc i) nm" using d by simp
  have "suffix_of nm = CHR ''.'' # drop (Suc i) nm" using assms i d by (simp add: suffix_of_def)
  moreover have "stem_of nm = take i nm" using assms i by (simp add: stem_of_def)
  moreover have "drop (Suc i) nm \<noteq> []" using i by simp
  moreover have "take i nm \<noteq> []" using i by auto
  ultimately show ?thesis using r(2) e by auto
qed

lemma suffix_of_empty: "\<not> has_suffix nm \<Longrightarrow> suffix_of nm = [] \<and> stem_of nm = nm"
  by (simp add: suffix_of_def stem_of_def)

lemma file_extension_cases:
  "(suffix file = [] \<and> file_extension file = [] \<and> stem file = name file) \<or>
   (\<exists>ext. suffix file = CHR ''.'' # ext \<and> file_extension file = ext \<and> ext \<noteq> []
          \<and> CHR ''.'' \<notin> set ext \<and> stem file \<noteq> [] \<and> name file = stem file @ CHR ''.'' # ext)"
proof (cases "has_suffix (name file)")
  case True
  from suffix_of_shape[OF True] show ?thesis
    by (auto simp: suffix_def stem_def file_extension_def)
next
  case False
  then show ?thesis
    using suffix_of_empty[OF False] by (simp add: suffix_def stem_def file_extension_def)
qed

lemma first_candidate_parts:
  assumes "name file \<noteq> []" "CHR ''/'' \<notin> set (name file)"
  shows "first_candidate file dest =
           \<lparr>root = root dest,
            parts = parts dest @ [if suffix file = [] then ''without_extension'' else drop 1 (suffix file),
                                  stem file @ ''.'' @ drop 1 (suffix file)]\<rparr>"
proof -
  have we: "parse_path ''without_extension'' = \<lparr>root = [], parts = [''without_extension'']\<rparr>"
    by (rule parse_path_single) simp_all
  from file_extension_cases[of "file"] show ?thesis
  proof (elim disjE exE conjE)
    assume a: "suffix file = []" "file_extension file = []" "stem file = name file"
    have "parse_path (name file @ ''.'') = \<lparr>root = [], parts = [name file @ ''.'']\<rparr>"
      using assms by (intro parse_path_single) (auto simp: append_eq_Cons_conv)
    then show ?thesis using a we by (simp add: first_candidate_def joinpath_def)
  next
    fix ext
    assume a: "suffix file = CHR ''.'' # ext" "file_extension file = ext" "ext \<noteq> []"
      "CHR ''.'' \<notin> set ext" "stem file \<noteq> []" "name file = stem file @ CHR ''.'' # ext"
    have sl: "CHR ''/'' \<notin> set ext" "CHR ''/'' \<notin> set (stem file)" using assms(2) a(6) by auto
    have "ext \<noteq> ''.''" using a(4) by auto
    then have p1: "parse_path ext = \<lparr>root = [], parts = [ext]\<rparr>"
      using sl a(3) by (intro parse_path_single) auto
    have p2: "parse_path (stem file @ ''.'' @ ext) = \<lparr>root = [], parts = [stem file @ ''.'' @ ext]\<rparr>"
      using sl a(3,5) by (intro parse_path_single) (auto simp: append_eq_Cons_conv)
    show ?thesis using a p1 p2 by (simp add: first_candidate_def joinpath_def)
  qed
qed

text \<open>
  C6. For a file whose name is a proper path component, the first candidate of
  \<open>file_path_build\<close> is \<open>dest / category / "{stem}.{extension}"\<close>, the category being the
  suffix without its dot, or \<open>without_extension\<close> when the suffix is empty; a file without
  extension is routed to \<open>without_extension\<close> under its name followed by a dot; and the
  first candidate is what \<open>file_path_build\<close> returns when nothing exists there.
\<close>

theorem first_candidate_routing:
  "name file \<noteq> [] \<and> CHR ''/'' \<notin> set (name file) \<longrightarrow>
     first_candidate file dest =
       \<lparr>root = root dest,
        parts = parts dest @ [if suffix file = [] then ''without_extension'' else drop 1 (suffix file),
                              stem file @ ''.'' @ drop 1 (suffix file)]\<rparr>
     \<and> (suffix file = [] \<longrightarrow>
          first_candidate file dest =
            \<lparr>root = root dest, parts = parts dest @ [''without_extension'', name file @ ''.'']\<rparr>)
     \<and> (\<not> exists fs (first_candidate file dest) \<longrightarrow>
          file_path_build fs file dest = Some (Inr (first_candidate file dest)))"
proof (intro impI conjI)
  assume a: "name file \<noteq> [] \<and> CHR ''/'' \<notin> set (name file)"
  then show s: "first_candidate file dest =
       \<lparr>root = root dest,
        parts = parts dest @ [if suffix file = [] then ''without_extension'' else drop 1 (suffix file),
                              stem file @ ''.'' @ drop 1 (suffix file)]\<rparr>"
    using first_candidate_parts by blast
  assume e: "suffix file = []"
  with file_extension_cases[of "file"] have "stem file = name file" by auto
  with s e show "first_candidate file dest =
            \<lparr>root = root dest, parts = parts dest @ [''without_extension'', name file @ ''.'']\<rparr>"
    by simp
next
  assume "\<not> exists fs (first_candidate file dest)"
  then show "file_path_build fs file dest = Some (Inr (first_candidate file dest))"
    by (simp add: file_path_build_def rename_loop.simps)
qed

theorem first_candidate_routing_witness:
  "first_candidate \<lparr>root = ''/'', parts = [''src'', ''readme'']\<rparr> \<lparr>root = ''/'', parts = [''dist'']\<rparr>
     = \<lparr>root = ''/'', parts = [''dist'', ''without_extension'', ''readme.'']\<rparr>
   \<and> file_path_build Map.empty \<lparr>root = ''/'', parts = [''src'', ''readme'']\<rparr> \<lparr>root = ''/'', parts = [''dist'']\<rparr>
     = Some (Inr \<lparr>root = ''/'', parts = [''dist'', ''without_extension'', ''readme.'']\<rparr>)"
  using first_candidate_routing[of "\<lparr>root = ''/'', parts = [''src'', ''readme'']\<rparr>"
      "\<lparr>root = ''/'', parts = [''dist'']\<rparr>" Map.empty]
  by (simp add: name_def suffix_def suffix_of_def stem_def stem_of_def has_suffix_def exists_def)

subsection \<open>\<open>get_absolute_path\<close>, \<open>cli\<close> and the renaming loop\<close>

text \<open>
  C8. \<open>get_absolute_path\<close> does not always return an absolute path, as its docstring
  (\<open>:return: absolute path\<close>) and the comment of line 41 say it does: with the working
  directory \<open>/home\<close>, \<open>get_absolute_path('a', 'b')\<close> joins the relative path onto the
  relative base directory and returns \<open>b/a\<close>, which is relative.
\<close>

theorem get_absolute_path_relative_base:
  "get_absolute_path \<lparr>root = ''/'', parts = [''home'']\<rparr> (PStr ''a'') (Some (PStr ''b''))
     = Inr \<lparr>root = [], parts = [''b'', ''a'']\<rparr>
   \<and> \<not> is_absolute \<lparr>root = [], parts = [''b'', ''a'']\<rparr>"
  by (simp add: get_absolute_path_def is_absolute_def joinpath_def parse_path_def parse_root_def)

text \<open>
  What \<open>get_absolute_path\<close> does return. A non-empty relative path string is joined onto
  the supplied base directory, or onto the working directory when none is supplied, and
  the result is absolute whenever that directory is; an absolute path string is returned
  as the path it denotes; the empty string raises \<open>ValueError\<close>.
\<close>

lemma get_absolute_path_cases:
  "(s \<noteq> [] \<and> \<not> is_absolute (parse_path s) \<longrightarrow>
      get_absolute_path cwd (PStr s) base
        = Inr (joinpath (case base of Some d \<Rightarrow> to_path d | None \<Rightarrow> cwd) (parse_path s))
      \<and> (is_absolute (case base of Some d \<Rightarrow> to_path d | None \<Rightarrow> cwd) \<longrightarrow>
           (\<exists>p. get_absolute_path cwd (PStr s) base = Inr p \<and> is_absolute p)))
   \<and> (is_absolute (parse_path s) \<longrightarrow> get_absolute_path cwd (PStr s) base = Inr (parse_path s))
   \<and> get_absolute_path cwd (PStr []) base = Inl (ValueError ''The path can not be empty'')"
proof -
  have "s \<noteq> []" if "is_absolute (parse_path s)"
    using that by (auto simp: is_absolute_def parse_path_def parse_root_def)
  then show ?thesis
    by (auto simp: get_absolute_path_def is_absolute_def joinpath_def)
qed

lemma parse_loop_raises:
  "parse_loop argv src out extras = Inl e \<Longrightarrow>
     e = SystemExit 2 \<or> (e = SystemExit 0 \<and> (\<exists>a\<in>set argv. is_help a))"
  by (induction argv src out extras rule: parse_loop.induct) (auto split: if_splits)

text \<open>
  C7, as stated, fails: without the required \<open>--source\<close> the argument parser ends the
  process with \<open>SystemExit(2)\<close>, which \<open>except Exception\<close> does not handle, so the exit
  code is 2.
\<close>

theorem cli_usage_error_counterexample:
  "cli_argv [] (\<lambda>source output. None) = Some (SystemExit 2, [])"
  by (simp add: cli_argv_def cli_def cli_body_def parse_args_def except_Exception_def)

text \<open>
  C7, amended. When the argument parser accepts the command line, \<open>cli\<close> ends with
  \<open>SystemExit(0)\<close>, also when the run raised an exception of class \<open>Exception\<close>, which
  is logged. When the argument parser ends the process itself, the \<open>SystemExit\<close> it
  raises leaves \<open>cli\<close> with nothing logged and its code is the exit code; on a plain
  command line that code is 2, or 0 for the help, which takes a help option.
\<close>

theorem cli_exit_code:
  "(args = Inr (source, output) \<and> (\<forall>x. run source output = Some x \<longrightarrow> is_Exception x)
      \<longrightarrow> fst (cli args run) = SystemExit 0)
   \<and> (args = Inl (SystemExit code) \<longrightarrow> cli args run = (SystemExit code, []))
   \<and> (parse_args argv = Some (Inl e) \<longrightarrow>
        cli_argv argv run = Some (e, [])
        \<and> (e = SystemExit 2 \<or> (e = SystemExit 0 \<and> (\<exists>a\<in>set argv. is_help a))))
   \<and> (parse_args argv = Some (Inr (source, output))
        \<and> (\<forall>x. run source output = Some x \<longrightarrow> is_Exception x)
      \<longrightarrow> map_option fst (cli_argv argv run) = Some (SystemExit 0))"
proof -
  have accepted: "fst (cli (Inr (source, output)) run) = SystemExit 0"
    if "\<forall>x. run source output = Some x \<longrightarrow> is_Exception x"
    using that by (auto simp: cli_def cli_body_def except_Exception_def split: option.splits)
  have rejected: "cli (Inl (SystemExit c)) run = (SystemExit c, [])" for c
    by (simp add: cli_def cli_body_def except_Exception_def)
  have raises: "e = SystemExit 2 \<or> (e = SystemExit 0 \<and> (\<exists>a\<in>set argv. is_help a))"
    if "parse_args argv = Some (Inl e)"
    using that parse_loop_raises[of argv None "''dist''" False e]
    by (simp add: parse_args_def split: if_splits)
  have ended: "cli_argv argv run = Some (e, [])" if "parse_args argv = Some (Inl e)"
    using raises[OF that] that rejected by (auto simp: cli_argv_def)
  show ?thesis
    using accepted rejected raises ended by (simp add: cli_argv_def)
qed

theorem cli_exit_code_witness:
  "fst (cli (Inr (''photos'', ''dist'')) (\<lambda>source output. Some (ValueError ''The path can not be empty'')))
     = SystemExit 0
   \<and> cli (Inl (SystemExit 2)) (\<lambda>source output. None) = (SystemExit 2, [])
   \<and> parse_args [''--output'', ''sorted''] = Some (Inl (SystemExit 2))
   \<and> cli_argv [''--output'', ''sorted''] (\<lambda>source output. None) = Some (SystemExit 2, [])
   \<and> parse_args [''--source'', ''photos''] = Some (Inr (''photos'', ''dist''))
   \<and> map_option fst (cli_argv [''--source'', ''photos'']
                       (\<lambda>source output. Some (ValueError ''The path can not be empty'')))
     = Some (SystemExit 0)"
  using cli_exit_code[of "Inr (''photos'', ''dist'')" "''photos''" "''dist''"
          "\<lambda>source output. Some (ValueError ''The path can not be empty'')" 2
          "[''--source'', ''photos'']" "SystemExit 2"]
        cli_exit_code[of "Inl (SystemExit 2)" "''photos''" "''dist''"
          "\<lambda>source output. None" 2 "[''--output'', ''sorted'']" "SystemExit 2"]
  by (simp add: parse_args_def plain_def option_like_def is_help_def is_source_def is_output_def)

text \<open>
  C2. The file \<open>notes.\<close> has an empty suffix, so its first candidate is \<open>notes..\<close> and
  the second \<open>notes. (1)\<close>, whose suffix is \<open>. (1)\<close>: \<open>with_stem\<close> on that candidate
  keeps it, and the third candidate carries two counters.
\<close>

theorem file_path_build_nested_suffix:
  "file_path_build
     [\<lparr>root = ''/'', parts = [''dist'', ''without_extension'', ''notes..'']\<rparr> \<mapsto> File ''a'',
      \<lparr>root = ''/'', parts = [''dist'', ''without_extension'', ''notes. (1)'']\<rparr> \<mapsto> File ''b'']
     \<lparr>root = ''/'', parts = [''src'', ''notes.'']\<rparr> \<lparr>root = ''/'', parts = [''dist'']\<rparr>
   = Some (Inr \<lparr>root = ''/'', parts = [''dist'', ''without_extension'', ''notes. (2). (1)'']\<rparr>)"
  by (simp add: file_path_build_def rename_loop.simps first_candidate_def file_extension_def
      suffix_def stem_def suffix_of_def stem_of_def has_suffix_def name_def joinpath_def parse_path_def
      parse_root_def exists_def with_stem_def with_name_def indexed_stem_def str_nat.simps digit_char_def)

subsection \<open>The walk and the lock registry\<close>

lemma read_folder_returns: "\<exists>files lg'. read_folder p e lg = (Inr files, lg')"
  by (cases e) (auto simp: finally_return_def split: prod.splits)

lemma iterate_listing_error:
  "iterate p cs err st =
     (case iterate p cs None st of
        (None, r) \<Rightarrow> (err, r)
      | (Some y, r) \<Rightarrow> (Some y, r))"
proof (induction cs arbitrary: st)
  case Nil
  then show ?case by simp
next
  case (Cons c cs)
  obtain n link e where c: "c = (n, link, e)" by (cases c) auto
  obtain files lg where st: "st = (files, lg)" by (cases st) auto
  show ?case
    unfolding c st
    by (simp split: sum.splits bool.splits prod.splits option.splits add: Cons.IH)
qed

lemma iterate_append:
  "iterate p (cs @ cs') err st =
     (case iterate p cs None st of
        (None, r) \<Rightarrow> iterate p cs' err r
      | (Some y, r) \<Rightarrow> (Some y, r))"
proof (induction cs arbitrary: st)
  case Nil
  then show ?case by simp
next
  case (Cons c cs)
  obtain n link e where c: "c = (n, link, e)" by (cases c) auto
  obtain files lg where st: "st = (files, lg)" by (cases st) auto
  show ?case
    unfolding c st
    by (simp split: sum.splits bool.splits prod.splits option.splits add: Cons.IH)
qed

lemma read_folder_files:
  "fst (read_folder p (Directory cs err) lg)
     = Inr (fst (snd (iterate p cs err ([], lg @ [(INFO, ''Process folder: '' @ as_posix p)]))))"
  by (auto simp: finally_return_def except_OSError_def folder_failed_def
           split: prod.splits option.splits)

text \<open>
  C10. \<open>read_folder\<close> returns a list for every folder, whatever was raised inside the
  try block. An exception of any class raised by the listing after the children \<open>cs\<close>
  changes nothing in the files returned. When \<open>is_dir()\<close> or \<open>is_file()\<close> raises an
  exception of any class on a child, the files returned are those of the children
  listed before it: the files gathered so far are kept and the children after it are
  not looked at.
\<close>

theorem read_folder_never_raises:
  "(\<exists>files lg'. read_folder p e lg = (Inr files, lg'))
   \<and> fst (read_folder p (Directory cs (Some x)) lg) = fst (read_folder p (Directory cs None) lg)
   \<and> fst (read_folder p (Directory (cs @ (n, link, Unstatable x) # rest) err) lg)
       = fst (read_folder p (Directory cs None) lg)
   \<and> fst (read_folder p (Directory (cs @ (n, link, Unsteady x) # rest) err) lg)
       = fst (read_folder p (Directory cs None) lg)"
proof (intro conjI)
  show "\<exists>files lg'. read_folder p e lg = (Inr files, lg')" by (rule read_folder_returns)
  have h: "fst (snd (iterate p cs (Some x) st)) = fst (snd (iterate p cs None st))" for st
    by (subst iterate_listing_error) (auto split: prod.splits option.splits)
  show "fst (read_folder p (Directory cs (Some x)) lg) = fst (read_folder p (Directory cs None) lg)"
    by (simp only: read_folder_files h)
  have k: "fst (snd (iterate p (cs @ (n, link, Unstatable x) # rest) err st))
             = fst (snd (iterate p cs None st))" for st
    by (subst iterate_append) (auto split: prod.splits option.splits)
  show "fst (read_folder p (Directory (cs @ (n, link, Unstatable x) # rest) err) lg)
          = fst (read_folder p (Directory cs None) lg)"
    by (simp only: read_folder_files k)
  have m: "fst (snd (iterate p (cs @ (n, link, Unsteady x) # rest) err st))
             = fst (snd (iterate p cs None st))" for st
    by (subst iterate_append) (auto split: prod.splits option.splits)
  show "fst (read_folder p (Directory (cs @ (n, link, Unsteady x) # rest) err) lg)
          = fst (read_folder p (Directory cs None) lg)"
    by (simp only: read_folder_files m)
qed

text \<open>
  For instance, in a folder that lists \<open>a.txt\<close>, then \<open>b\<close>, on which \<open>is_file()\<close>
  raises a \<open>RuntimeError\<close>, then \<open>c.txt\<close>, the walk returns \<open>a.txt\<close> alone and logs
  nothing about the exception.
\<close>

lemma read_folder_raising_child:
  "read_folder \<lparr>root = ''/'', parts = [''src'']\<rparr>
     (Directory [(''a.txt'', False, RegularFile),
                 (''b'', False, Unsteady (RuntimeError ''boom'')),
                 (''c.txt'', False, RegularFile)] None) []
   = (Inr [\<lparr>root = ''/'', parts = [''src'', ''a.txt'']\<rparr>], [(INFO, ''Process folder: /src'')])"
  by (simp add: finally_return_def except_OSError_def child_path_def as_posix_def join_sep.simps)

text \<open>
  C4. A directory entry that is a symbolic link to a regular file is recorded by the
  walk: \<open>is_file()\<close> answers for the target of the link.
\<close>

theorem read_folder_follows_symlink:
  "fst (read_folder \<lparr>root = ''/'', parts = [''src'']\<rparr>
          (Directory [(''link.txt'', True, RegularFile)] None) [])
     = Inr [\<lparr>root = ''/'', parts = [''src'', ''link.txt'']\<rparr>]"
  by (simp add: finally_return_def except_OSError_def child_path_def)

lemma getitem_ok:
  assumes "reg_ok reg" "getitem reg k = (l, reg')"
  shows "reg_ok reg' \<and> table reg' k = Some l \<and> (\<forall>k' l'. table reg k' = Some l' \<longrightarrow> table reg' k' = Some l')"
proof (cases "table reg k")
  case (Some a)
  with assms show ?thesis by (auto simp: getitem_def)
next
  case None
  with assms(2) have r: "l = created reg" "reg' = \<lparr>table = (table reg)(k \<mapsto> created reg), created = Suc (created reg)\<rparr>"
    by (auto simp: getitem_def)
  have nf: "table reg y \<noteq> Some (created reg)" for y
    using assms(1) by (auto simp: reg_ok_def)
  have "inj_on (table reg') (dom (table reg'))"
    unfolding r using assms(1) None nf
    by (auto simp: reg_ok_def inj_on_def dom_def split: if_splits)
  moreover have "\<forall>k' l'. table reg' k' = Some l' \<longrightarrow> l' < created reg'"
    unfolding r using assms(1) by (auto simp: reg_ok_def less_Suc_eq)
  ultimately show ?thesis using None r by (auto simp: reg_ok_def)
qed

lemma locks_of_ok:
  assumes "reg_ok reg" "locks_of reg files = (ls, reg')"
  shows "reg_ok reg' \<and> length ls = length files
         \<and> (\<forall>i<length files. table reg' (lower (name (files ! i))) = Some (ls ! i))
         \<and> (\<forall>k l. table reg k = Some l \<longrightarrow> table reg' k = Some l)"
  using assms
proof (induction files arbitrary: reg ls reg')
  case Nil
  then show ?case by simp
next
  case (Cons f files)
  obtain l r1 where g: "getitem reg (lower (name f)) = (l, r1)" by (cases "getitem reg (lower (name f))") auto
  obtain ls' r2 where t: "locks_of r1 files = (ls', r2)" by (cases "locks_of r1 files") auto
  from Cons.prems(2) g t have e: "ls = l # ls'" "reg' = r2" by (auto simp: lock_of_def)
  from getitem_ok[OF Cons.prems(1) g] have g1: "reg_ok r1" "table r1 (lower (name f)) = Some l"
    "\<forall>k' l'. table reg k' = Some l' \<longrightarrow> table r1 k' = Some l'" by auto
  from Cons.IH[OF g1(1) t] have ih: "reg_ok r2" "length ls' = length files"
    "\<forall>i<length files. table r2 (lower (name (files ! i))) = Some (ls' ! i)"
    "\<forall>k l. table r1 k = Some l \<longrightarrow> table r2 k = Some l" by auto
  have "\<forall>i<length (f # files). table r2 (lower (name ((f # files) ! i))) = Some ((l # ls') ! i)"
  proof (intro allI impI)
    fix i assume "i < length (f # files)"
    then show "table r2 (lower (name ((f # files) ! i))) = Some ((l # ls') ! i)"
      using ih(3,4) g1(2) by (cases i) auto
  qed
  then show ?case using e ih g1 by auto
qed

lemma reg_ok_empty: "reg_ok empty_registry"
  by (simp add: reg_ok_def empty_registry_def)

text \<open>
  C9. Starting from the empty registry, the locks returned for a sequence of files are
  equal exactly when the lower-cased names are equal, and a lookup never removes or
  changes an entry of the registry.
\<close>

theorem one_lock_per_folded_name:
  "(locks_of empty_registry files = (ls, reg) \<longrightarrow>
      length ls = length files \<and>
      (\<forall>i<length files. \<forall>j<length files.
         (ls ! i = ls ! j) = (lower (name (files ! i)) = lower (name (files ! j)))))
   \<and> (table r k = Some l \<longrightarrow> table (snd (lock_of r f)) k = Some l)"
proof (intro conjI impI)
  assume a: "locks_of empty_registry files = (ls, reg)"
  from locks_of_ok[OF reg_ok_empty a] have ok: "reg_ok reg" "length ls = length files"
    "\<forall>i<length files. table reg (lower (name (files ! i))) = Some (ls ! i)" by auto
  show "length ls = length files" by (rule ok(2))
  show "\<forall>i<length files. \<forall>j<length files.
         (ls ! i = ls ! j) = (lower (name (files ! i)) = lower (name (files ! j)))"
  proof (intro allI impI)
    fix i j assume ij: "i < length files" "j < length files"
    let ?ki = "lower (name (files ! i))" and ?kj = "lower (name (files ! j))"
    from ok(3) ij have t: "table reg ?ki = Some (ls ! i)" "table reg ?kj = Some (ls ! j)" by auto
    show "(ls ! i = ls ! j) = (?ki = ?kj)"
    proof
      assume "ls ! i = ls ! j"
      with t have "table reg ?ki = table reg ?kj" by simp
      moreover have "?ki \<in> dom (table reg)" "?kj \<in> dom (table reg)" using t by auto
      ultimately show "?ki = ?kj" using ok(1) by (auto simp: reg_ok_def inj_on_def)
    next
      assume "?ki = ?kj"
      with t show "ls ! i = ls ! j" by simp
    qed
  qed
next
  assume "table r k = Some l"
  then show "table (snd (lock_of r f)) k = Some l"
    by (auto simp: lock_of_def getitem_def split: option.splits)
qed

theorem one_lock_per_folded_name_witness:
  "locks_of empty_registry
      [\<lparr>root = ''/'', parts = [''s'', ''x'', ''Report.TXT'']\<rparr>,
       \<lparr>root = ''/'', parts = [''s'', ''notes'']\<rparr>,
       \<lparr>root = ''/'', parts = [''s'', ''y'', ''report.txt'']\<rparr>]
     = ([0, 1, 0], \<lparr>table = [''report.txt'' \<mapsto> 0, ''notes'' \<mapsto> 1], created = 2\<rparr>)
   \<and> length [0, 1, 0 :: nat] = 3"
  using one_lock_per_folded_name[where files =
      "[\<lparr>root = ''/'', parts = [''s'', ''x'', ''Report.TXT'']\<rparr>,
       \<lparr>root = ''/'', parts = [''s'', ''notes'']\<rparr>,
       \<lparr>root = ''/'', parts = [''s'', ''y'', ''report.txt'']\<rparr>]"
      and ls = "[0, 1, 0]"
      and reg = "\<lparr>table = [''report.txt'' \<mapsto> 0, ''notes'' \<mapsto> 1], created = 2\<rparr>"]
  by (simp add: lock_of_def getitem_def empty_registry_def name_def lower_def lower_char_def)

subsection \<open>The copy workers\<close>

lemma set_pc_fields:
  "length (tasks (set_pc i q w)) = length (tasks w)"
  "fsys (set_pc i q w) = fsys w"
  "locks (set_pc i q w) = locks w"
  "held (set_pc i q w) = held w"
  "logged (set_pc i q w) = logged w"
  by (simp_all add: set_pc_def)

lemma file_of_set_pc: "j < length (tasks w) \<Longrightarrow> file_of (set_pc i q w) j = file_of w j"
  by (cases "i = j") (simp_all add: set_pc_def file_of_def)

lemma pc_of_set_pc:
  "j < length (tasks w) \<Longrightarrow> pc_of (set_pc i q w) j = (if i = j then q else pc_of w j)"
  by (simp add: set_pc_def pc_of_def)


lemma field_update_simps:
  "pc_of (w\<lparr>locks := r\<rparr>) j = pc_of w j"
  "pc_of (w\<lparr>held := h\<rparr>) j = pc_of w j"
  "pc_of (w\<lparr>fsys := f\<rparr>) j = pc_of w j"
  "pc_of (w\<lparr>logged := g\<rparr>) j = pc_of w j"
  "file_of (w\<lparr>locks := r\<rparr>) j = file_of w j"
  "file_of (w\<lparr>held := h\<rparr>) j = file_of w j"
  "file_of (w\<lparr>fsys := f\<rparr>) j = file_of w j"
  "file_of (w\<lparr>logged := g\<rparr>) j = file_of w j"
  by (simp_all add: pc_of_def file_of_def)

lemmas world_simps = set_pc_fields file_of_set_pc pc_of_set_pc field_update_simps










subsection \<open>The workers under every schedule\<close>

lemma step_frame:
  assumes "step folder i w w'"
  shows "i < length (tasks w) \<and> length (tasks w') = length (tasks w)
         \<and> (\<forall>j<length (tasks w). file_of w' j = file_of w j)
         \<and> (\<forall>j<length (tasks w). j \<noteq> i \<longrightarrow> pc_of w' j = pc_of w j)"
  using assms by (cases rule: step.cases) (simp_all add: world_simps)


lemma os_mkdir_keeps: "os_mkdir fs p = Inr fs' \<Longrightarrow> fs q \<noteq> None \<Longrightarrow> fs' q = fs q"
  by (auto simp: os_mkdir_def split: if_splits)

lemma mkdir_exist_ok_keeps: "mkdir_exist_ok fs p = Inr fs' \<Longrightarrow> fs q \<noteq> None \<Longrightarrow> fs' q = fs q"
  by (auto simp: mkdir_exist_ok_def split: sum.splits if_splits dest: os_mkdir_keeps)

lemma mkdir_parents_keeps: "mkdir_parents fs p = Inr fs' \<Longrightarrow> fs q \<noteq> None \<Longrightarrow> fs' q = fs q"
proof (induction fs p arbitrary: fs' rule: mkdir_parents.induct)
  case (1 fs p)
  show ?case
  proof (cases "os_mkdir fs p")
    case (Inr a)
    with "1.prems" show ?thesis by (auto simp: mkdir_parents.simps[of fs p] dest: os_mkdir_keeps)
  next
    case (Inl e)
    show ?thesis
    proof (cases "is_FileNotFoundError e")
      case False
      with Inl "1.prems" show ?thesis by (auto simp: mkdir_parents.simps[of fs p] split: if_splits)
    next
      case True
      with Inl "1.prems"(1) obtain fs1 where m: "parts p \<noteq> []" "mkdir_parents fs (parent p) = Inr fs1"
        "mkdir_exist_ok fs1 p = Inr fs'"
        by (auto simp: mkdir_parents.simps[of fs p] split: if_splits sum.splits)
      from "1.IH"[OF Inl True m(1) m(2) "1.prems"(2)] have "fs1 q = fs q" .
      with mkdir_exist_ok_keeps[OF m(3), of q] "1.prems"(2) show ?thesis by auto
    qed
  qed
qed

lemma copyfile_result:
  "copyfile fs src dst = Inr fs' \<Longrightarrow> \<exists>bytes. fs src = Some (File bytes) \<and> fs' = fs(dst \<mapsto> File bytes)"
  by (auto simp: copyfile_def split: if_splits option.splits node.splits)

lemma step_holds:
  assumes "step folder i w w'"
  shows "(holds (pc_of w' i) = holds (pc_of w i) \<and> held w' = held w)
       \<or> (\<exists>l. holds (pc_of w i) = None \<and> holds (pc_of w' i) = Some l \<and> l \<notin> held w
              \<and> held w' = insert l (held w))
       \<or> (\<exists>l. holds (pc_of w i) = Some l \<and> holds (pc_of w' i) = None \<and> held w' = held w - {l})"
  using assms by (cases rule: step.cases) (simp_all add: world_simps)

lemma step_knows:
  assumes "step folder i w w'"
  shows "(locks w' = locks w \<and> (knows (pc_of w' i) = knows (pc_of w i) \<or> knows (pc_of w' i) = None))
       \<or> (\<exists>l. lock_of (locks w) (file_of w i) = (l, locks w') \<and> knows (pc_of w' i) = Some l)"
  using assms by (cases rule: step.cases) (simp_all add: world_simps)

lemma step_keeps:
  assumes "step folder i w w'" "fsys w p \<noteq> None"
  shows "fsys w' p = fsys w p \<or> (\<exists>l. pc_of w i = Copying l p \<and> fsys w' p \<noteq> None)"
  using assms
proof (cases rule: step.cases)
  case (mkdir_ok l c fs')
  with assms(2) mkdir_parents_keeps[of "fsys w" "parent c" fs' p] show ?thesis
    by (simp add: world_simps)
next
  case (mkdir_raises l c e fs')
  with assms(2) show ?thesis by (auto simp: world_simps dirs_added_def)
next
  case (copy_ok l c fs')
  with assms(2) copyfile_result[of "fsys w" "file_of w i" c fs'] show ?thesis
    by (cases "p = c") (auto simp: world_simps)
next
  case (copy_raises l c e fs')
  with assms(2) show ?thesis by (cases "p = c") (auto simp: world_simps copy_interrupted_def)
qed (simp_all add: world_simps)

lemma step_target:
  assumes "step folder i w w'" "target (pc_of w' i) = Some c"
  shows "target (pc_of w i) = Some c
       \<or> ((\<exists>l n. pc_of w i = Probing l n c) \<and> \<not> exists (fsys w) c)"
  using assms by (cases rule: step.cases) (auto simp: world_simps)

lemma step_copied:
  assumes "step folder i w w'" "copied (pc_of w' i) = Some c"
  shows "(\<exists>l. pc_of w i = Copying l c) \<and> exists (fsys w') c"
  using assms
proof (cases rule: step.cases)
  case (copy_ok l c' fs')
  with assms(2) copyfile_result[of "fsys w" "file_of w i" c' fs'] show ?thesis
    by (auto simp: world_simps exists_def)
qed (auto simp: world_simps)

lemma step_inv_mutex:
  assumes "step folder i w w'" "inv_mutex w"
  shows "inv_mutex w'"
proof -
  from step_frame[OF assms(1)] have i: "i < length (tasks w)"
    and len: "length (tasks w') = length (tasks w)"
    and oth: "\<And>j. j < length (tasks w) \<Longrightarrow> j \<noteq> i \<Longrightarrow> pc_of w' j = pc_of w j"
    by auto
  from assms(2) have H: "\<And>j l. j < length (tasks w) \<Longrightarrow> holds (pc_of w j) = Some l \<Longrightarrow> l \<in> held w"
    and M: "\<And>j k l. j < length (tasks w) \<Longrightarrow> k < length (tasks w) \<Longrightarrow> j \<noteq> k
              \<Longrightarrow> holds (pc_of w j) = Some l \<Longrightarrow> holds (pc_of w k) \<noteq> Some l"
    unfolding inv_mutex_def by blast+
  from step_holds[OF assms(1)] consider
      (same) "holds (pc_of w' i) = holds (pc_of w i)" "held w' = held w"
    | (acq) l where "holds (pc_of w i) = None" "holds (pc_of w' i) = Some l" "l \<notin> held w"
        "held w' = insert l (held w)"
    | (rel) l where "holds (pc_of w i) = Some l" "holds (pc_of w' i) = None" "held w' = held w - {l}"
    by blast
  then have "(\<forall>j<length (tasks w). \<forall>l. holds (pc_of w' j) = Some l \<longrightarrow> l \<in> held w')
     \<and> (\<forall>j<length (tasks w). \<forall>k<length (tasks w). \<forall>l.
            j \<noteq> k \<longrightarrow> holds (pc_of w' j) = Some l \<longrightarrow> holds (pc_of w' k) \<noteq> Some l)"
  proof cases
    case same
    have hw: "holds (pc_of w' j) = holds (pc_of w j)" if "j < length (tasks w)" for j
      using that same(1) oth[of j] by (cases "j = i") auto
    show ?thesis
    proof (intro conjI allI impI)
      fix j l assume "j < length (tasks w)" "holds (pc_of w' j) = Some l"
      then show "l \<in> held w'" using hw[of j] H[of j l] same(2) by simp
    next
      fix j k l assume "j < length (tasks w)" "k < length (tasks w)" "j \<noteq> k"
        "holds (pc_of w' j) = Some l"
      then show "holds (pc_of w' k) \<noteq> Some l" using hw[of j] hw[of k] M[of j k l] by simp
    qed
  next
    case acq
    have hw: "holds (pc_of w' j) = (if j = i then Some l else holds (pc_of w j))"
      if "j < length (tasks w)" for j
      using that acq(2) oth[of j] by (cases "j = i") auto
    have no: "holds (pc_of w j) \<noteq> Some l" if "j < length (tasks w)" for j
      using H[OF that, of l] acq(3) by blast
    show ?thesis
    proof (intro conjI allI impI)
      fix j l' assume "j < length (tasks w)" "holds (pc_of w' j) = Some l'"
      then show "l' \<in> held w'" using hw[of j] H[of j l'] acq(4) by (cases "j = i") simp_all
    next
      fix j k l' assume "j < length (tasks w)" "k < length (tasks w)" "j \<noteq> k"
        "holds (pc_of w' j) = Some l'"
      then show "holds (pc_of w' k) \<noteq> Some l'"
        using hw[of j] hw[of k] M[of j k l'] no[of j] no[of k]
        by (cases "j = i"; cases "k = i") simp_all
    qed
  next
    case rel
    have hw: "holds (pc_of w' j) = (if j = i then None else holds (pc_of w j))"
      if "j < length (tasks w)" for j
      using that rel(2) oth[of j] by (cases "j = i") auto
    have no: "holds (pc_of w j) \<noteq> Some l" if "j < length (tasks w)" "j \<noteq> i" for j
      using M[OF i that(1) that(2)[symmetric] rel(1)] .
    show ?thesis
    proof (intro conjI allI impI)
      fix j l' assume "j < length (tasks w)" "holds (pc_of w' j) = Some l'"
      then show "l' \<in> held w'" using hw[of j] H[of j l'] no[of j] rel(3)
        by (cases "j = i") auto
    next
      fix j k l' assume "j < length (tasks w)" "k < length (tasks w)" "j \<noteq> k"
        "holds (pc_of w' j) = Some l'"
      then show "holds (pc_of w' k) \<noteq> Some l'"
        using hw[of j] hw[of k] M[of j k l']
        by (cases "j = i"; cases "k = i") auto
    qed
  qed
  then show ?thesis unfolding inv_mutex_def len .
qed

lemma step_key:
  assumes "step folder i w w'" "j < length (tasks w)"
  shows "key w' j = key w j"
  using step_frame[OF assms(1)] assms(2) by (simp add: key_def)

lemma step_inv_knows:
  assumes "step folder i w w'" "inv_knows w"
  shows "inv_knows w'"
proof -
  from step_frame[OF assms(1)] have i: "i < length (tasks w)"
    and len: "length (tasks w') = length (tasks w)"
    and oth: "\<And>j. j < length (tasks w) \<Longrightarrow> j \<noteq> i \<Longrightarrow> pc_of w' j = pc_of w j"
    by auto
  note k = step_key[OF assms(1)]
  from assms(2) have R: "reg_ok (locks w)"
    and K: "\<And>j l. j < length (tasks w) \<Longrightarrow> knows (pc_of w j) = Some l
              \<Longrightarrow> table (locks w) (key w j) = Some l"
    unfolding inv_knows_def by blast+
  from step_knows[OF assms(1)] consider
      (same) "locks w' = locks w" "knows (pc_of w' i) = knows (pc_of w i) \<or> knows (pc_of w' i) = None"
    | (new) l where "lock_of (locks w) (file_of w i) = (l, locks w')" "knows (pc_of w' i) = Some l"
    by (elim disjE conjE exE) simp_all
  then have "reg_ok (locks w') \<and>
     (\<forall>j<length (tasks w). \<forall>l. knows (pc_of w' j) = Some l \<longrightarrow> table (locks w') (key w' j) = Some l)"
  proof cases
    case same
    show ?thesis
    proof (intro conjI allI impI)
      show "reg_ok (locks w')" using R same(1) by simp
    next
      fix j l assume j: "j < length (tasks w)" "knows (pc_of w' j) = Some l"
      show "table (locks w') (key w' j) = Some l"
      proof (cases "j = i")
        case True
        with j same(2) have "knows (pc_of w i) = Some l" by auto
        with K[OF i] True k[OF i] same(1) show ?thesis by simp
      next
        case False
        with j oth[of j] K[of j l] k[of j] same(1) show ?thesis by simp
      qed
    qed
  next
    case new
    from getitem_ok[OF R new(1)[unfolded lock_of_def]]
    have g: "reg_ok (locks w')" "table (locks w') (key w i) = Some l"
      "\<And>k' l'. table (locks w) k' = Some l' \<Longrightarrow> table (locks w') k' = Some l'"
      by (auto simp: key_def)
    show ?thesis
    proof (intro conjI allI impI)
      show "reg_ok (locks w')" by (rule g(1))
    next
      fix j l' assume j: "j < length (tasks w)" "knows (pc_of w' j) = Some l'"
      show "table (locks w') (key w' j) = Some l'"
      proof (cases "j = i")
        case True
        with j new(2) g(2) k[OF i] show ?thesis by simp
      next
        case False
        with j oth[of j] have "knows (pc_of w j) = Some l'" by simp
        from g(3)[OF K[OF j(1) this]] k[OF j(1)] show ?thesis by simp
      qed
    qed
  qed
  then show ?thesis unfolding inv_knows_def len .
qed

lemma step_inv_copied:
  assumes "step folder i w w'" "inv_copied w"
  shows "inv_copied w'"
proof -
  from step_frame[OF assms(1)] have i: "i < length (tasks w)"
    and len: "length (tasks w') = length (tasks w)"
    and oth: "\<And>j. j < length (tasks w) \<Longrightarrow> j \<noteq> i \<Longrightarrow> pc_of w' j = pc_of w j"
    by auto
  from assms(2) have C: "\<And>j c. j < length (tasks w) \<Longrightarrow> copied (pc_of w j) = Some c
              \<Longrightarrow> exists (fsys w) c"
    unfolding inv_copied_def by blast
  have "\<forall>j<length (tasks w). \<forall>c. copied (pc_of w' j) = Some c \<longrightarrow> exists (fsys w') c"
  proof (intro allI impI)
    fix j c assume j: "j < length (tasks w)" "copied (pc_of w' j) = Some c"
    show "exists (fsys w') c"
    proof (cases "j = i")
      case True
      with step_copied[OF assms(1), of c] j show ?thesis by simp
    next
      case False
      with j oth[of j] C[of j c] have "fsys w c \<noteq> None" by (simp add: exists_def)
      from step_keeps[OF assms(1) this] this show ?thesis by (auto simp: exists_def)
    qed
  qed
  then show ?thesis unfolding inv_copied_def len .
qed

lemma target_cases: "target q = Some c \<Longrightarrow> copied q = Some c \<or> (\<exists>l. holds q = Some l)"
  by (cases q) auto

lemma holds_knows: "holds q = Some l \<Longrightarrow> knows q = Some l"
  by (cases q) auto

lemma step_inv_distinct:
  assumes "step folder i w w'" "inv_knows w" "inv_mutex w" "inv_copied w" "inv_distinct w"
  shows "inv_distinct w'"
proof -
  from step_frame[OF assms(1)] have i: "i < length (tasks w)"
    and len: "length (tasks w') = length (tasks w)"
    and oth: "\<And>j. j < length (tasks w) \<Longrightarrow> j \<noteq> i \<Longrightarrow> pc_of w' j = pc_of w j"
    by auto
  note k = step_key[OF assms(1)]
  from assms(2) have K: "\<And>j l. j < length (tasks w) \<Longrightarrow> knows (pc_of w j) = Some l
              \<Longrightarrow> table (locks w) (key w j) = Some l"
    unfolding inv_knows_def by blast
  from assms(3) have M: "\<And>j k l. j < length (tasks w) \<Longrightarrow> k < length (tasks w) \<Longrightarrow> j \<noteq> k
              \<Longrightarrow> holds (pc_of w j) = Some l \<Longrightarrow> holds (pc_of w k) \<noteq> Some l"
    unfolding inv_mutex_def by blast
  from assms(4) have C: "\<And>j c. j < length (tasks w) \<Longrightarrow> copied (pc_of w j) = Some c
              \<Longrightarrow> exists (fsys w) c"
    unfolding inv_copied_def by blast
  from assms(5) have D: "\<And>a b c. a < length (tasks w) \<Longrightarrow> b < length (tasks w) \<Longrightarrow> a \<noteq> b
              \<Longrightarrow> key w a = key w b \<Longrightarrow> copied (pc_of w a) = Some c
              \<Longrightarrow> target (pc_of w b) \<noteq> Some c"
    unfolding inv_distinct_def by blast
  have excl: "holds (pc_of w a) = None \<or> holds (pc_of w b) = None"
    if "a < length (tasks w)" "b < length (tasks w)" "a \<noteq> b" "key w a = key w b" for a b
  proof (rule ccontr)
    assume "\<not> ?thesis"
    then obtain la lb where h: "holds (pc_of w a) = Some la" "holds (pc_of w b) = Some lb" by auto
    from K[OF that(1) holds_knows[OF h(1)]] K[OF that(2) holds_knows[OF h(2)]] that(4)
    have "la = lb" by simp
    with M[OF that(1,2,3) h(1)] h(2) show False by simp
  qed
  have "\<forall>a<length (tasks w). \<forall>b<length (tasks w). \<forall>c.
            a \<noteq> b \<longrightarrow> key w' a = key w' b \<longrightarrow> copied (pc_of w' a) = Some c
            \<longrightarrow> target (pc_of w' b) \<noteq> Some c"
  proof (intro allI impI notI)
    fix a b c assume a: "a < length (tasks w)" and b: "b < length (tasks w)" and ab: "a \<noteq> b"
      and kk: "key w' a = key w' b" and ca: "copied (pc_of w' a) = Some c"
      and tb: "target (pc_of w' b) = Some c"
    from kk k[OF a] k[OF b] have kab: "key w a = key w b" by simp
    consider (a) "a = i" | (b) "b = i" | (none) "a \<noteq> i" "b \<noteq> i" using ab by blast
    then show False
    proof cases
      case none
      with D[OF a b ab kab] oth[OF a] oth[OF b] ca tb show False by simp
    next
      case a
      with step_copied[OF assms(1), of c] ca obtain l where pi: "pc_of w i = Copying l c" by auto
      from a ab have bi: "b \<noteq> i" by simp
      with tb oth[OF b] have tb': "target (pc_of w b) = Some c" by simp
      from target_cases[OF tb'] show False
      proof
        assume "copied (pc_of w b) = Some c"
        from D[OF b i bi _ this] kab a pi show False by simp
      next
        assume "\<exists>l. holds (pc_of w b) = Some l"
        with excl[OF i b bi[symmetric]] kab a pi show False by auto
      qed
    next
      case b
      from b ab have ai: "a \<noteq> i" by simp
      with ca oth[OF a] have ca': "copied (pc_of w a) = Some c" by simp
      from step_target[OF assms(1), of c] tb b
      have "target (pc_of w i) = Some c \<or> \<not> exists (fsys w) c" by auto
      then show False
      proof
        assume "target (pc_of w i) = Some c"
        with D[OF a i ai _ ca'] kab b show False by simp
      next
        assume "\<not> exists (fsys w) c"
        with C[OF a ca'] show False by simp
      qed
    qed
  qed
  then show ?thesis unfolding inv_distinct_def len .
qed

lemma step_probing:
  assumes "step folder i w w'" "pc_of w' i = Probing l n c"
  shows "(n = 0 \<and> c = first_candidate (file_of w i) folder)
       \<or> (\<exists>m c0. n = Suc m \<and> pc_of w i = Probing l m c0
             \<and> with_stem c0 (indexed_stem (stem (file_of w i)) (Suc m)) = Inr c)"
  using assms by (cases rule: step.cases) (auto simp: world_simps)

lemma step_inv_owner:
  assumes "step folder i w w'" "inv_owner w"
  shows "inv_owner w'"
proof -
  from step_frame[OF assms(1)] have i: "i < length (tasks w)"
    and len: "length (tasks w') = length (tasks w)"
    and oth: "\<And>j. j < length (tasks w) \<Longrightarrow> j \<noteq> i \<Longrightarrow> pc_of w' j = pc_of w j"
    by auto
  from assms(2) have O: "\<And>l. l \<in> held w \<Longrightarrow> \<exists>j<length (tasks w). holds (pc_of w j) = Some l"
    unfolding inv_owner_def by blast
  from step_holds[OF assms(1)] consider
      (same) "holds (pc_of w' i) = holds (pc_of w i)" "held w' = held w"
    | (acq) l where "holds (pc_of w i) = None" "holds (pc_of w' i) = Some l" "l \<notin> held w"
        "held w' = insert l (held w)"
    | (rel) l where "holds (pc_of w i) = Some l" "holds (pc_of w' i) = None" "held w' = held w - {l}"
    by blast
  then have "\<forall>l\<in>held w'. \<exists>j<length (tasks w). holds (pc_of w' j) = Some l"
  proof cases
    case same
    show ?thesis
    proof
      fix l assume "l \<in> held w'"
      with same(2) O obtain j where j: "j < length (tasks w)" "holds (pc_of w j) = Some l" by auto
      with same(1) oth[of j] have "holds (pc_of w' j) = Some l" by (cases "j = i") auto
      with j(1) show "\<exists>j<length (tasks w). holds (pc_of w' j) = Some l" by blast
    qed
  next
    case acq
    show ?thesis
    proof
      fix l' assume l': "l' \<in> held w'"
      show "\<exists>j<length (tasks w). holds (pc_of w' j) = Some l'"
      proof (cases "l' = l")
        case True
        with acq(2) i show ?thesis by blast
      next
        case False
        with l' acq(4) O obtain j where j: "j < length (tasks w)" "holds (pc_of w j) = Some l'"
          by auto
        with acq(1) have "j \<noteq> i" by auto
        with j oth[of j] have "holds (pc_of w' j) = Some l'" by simp
        with j(1) show ?thesis by blast
      qed
    qed
  next
    case rel
    show ?thesis
    proof
      fix l' assume l': "l' \<in> held w'"
      with rel(3) O obtain j where j: "j < length (tasks w)" "holds (pc_of w j) = Some l'"
        and ne: "l' \<noteq> l" by auto
      with rel(1) have "j \<noteq> i" by auto
      with j oth[of j] have "holds (pc_of w' j) = Some l'" by simp
      with j(1) show "\<exists>j<length (tasks w). holds (pc_of w' j) = Some l'" by blast
    qed
  qed
  then show ?thesis unfolding inv_owner_def len .
qed

lemma step_inv_cand:
  assumes "step folder i w w'" "inv_cand folder w"
  shows "inv_cand folder w'"
proof -
  from step_frame[OF assms(1)] have i: "i < length (tasks w)"
    and len: "length (tasks w') = length (tasks w)"
    and fl: "\<And>j. j < length (tasks w) \<Longrightarrow> file_of w' j = file_of w j"
    and oth: "\<And>j. j < length (tasks w) \<Longrightarrow> j \<noteq> i \<Longrightarrow> pc_of w' j = pc_of w j"
    by auto
  from assms(2) have P: "\<And>j l n c. j < length (tasks w) \<Longrightarrow> pc_of w j = Probing l n c
              \<Longrightarrow> candidate (file_of w j) folder n = Inr c"
    and T: "\<And>j c. j < length (tasks w) \<Longrightarrow> target (pc_of w j) = Some c
              \<Longrightarrow> \<exists>n. candidate (file_of w j) folder n = Inr c"
    unfolding inv_cand_def by blast+
  have "\<forall>j<length (tasks w). \<forall>c.
      (\<forall>l n. pc_of w' j = Probing l n c \<longrightarrow> candidate (file_of w' j) folder n = Inr c)
      \<and> (target (pc_of w' j) = Some c \<longrightarrow> (\<exists>n. candidate (file_of w' j) folder n = Inr c))"
  proof (intro allI impI conjI)
    fix j c l n assume j: "j < length (tasks w)" and p: "pc_of w' j = Probing l n c"
    show "candidate (file_of w' j) folder n = Inr c"
    proof (cases "j = i")
      case False
      with j p oth[of j] P[of j l n c] fl[of j] show ?thesis by simp
    next
      case True
      from step_probing[OF assms(1), of l n c] p True
      consider "n = 0" "c = first_candidate (file_of w i) folder"
        | m c0 where "n = Suc m" "pc_of w i = Probing l m c0"
            "with_stem c0 (indexed_stem (stem (file_of w i)) (Suc m)) = Inr c"
        by auto
      then show ?thesis
      proof cases
        case 1
        with True fl[OF i] show ?thesis by simp
      next
        case 2
        from P[OF i 2(2)] 2(1,3) True fl[OF i] show ?thesis by simp
      qed
    qed
  next
    fix j c assume j: "j < length (tasks w)" and t: "target (pc_of w' j) = Some c"
    show "\<exists>n. candidate (file_of w' j) folder n = Inr c"
    proof (cases "j = i")
      case False
      with j t oth[of j] T[of j c] fl[of j] show ?thesis by simp
    next
      case True
      from step_target[OF assms(1), of c] t True
      consider "target (pc_of w i) = Some c" | l n where "pc_of w i = Probing l n c" by auto
      then show ?thesis
      proof cases
        case 1
        from T[OF i 1] True fl[OF i] show ?thesis by simp
      next
        case 2
        from P[OF i 2] True fl[OF i] show ?thesis by auto
      qed
    qed
  qed
  then show ?thesis unfolding inv_cand_def len .
qed

lemma step_inv_fresh:
  assumes "step folder i w w'" "inv_fresh fs w"
  shows "inv_fresh fs w'"
proof -
  from step_frame[OF assms(1)] have i: "i < length (tasks w)"
    and len: "length (tasks w') = length (tasks w)"
    and oth: "\<And>j. j < length (tasks w) \<Longrightarrow> j \<noteq> i \<Longrightarrow> pc_of w' j = pc_of w j"
    by auto
  from assms(2) have F: "\<And>p. fs p \<noteq> None \<Longrightarrow> fsys w p = fs p"
    and T: "\<And>j c. j < length (tasks w) \<Longrightarrow> target (pc_of w j) = Some c \<Longrightarrow> fs c = None"
    unfolding inv_fresh_def by blast+
  have "(\<forall>p. fs p \<noteq> None \<longrightarrow> fsys w' p = fs p)
      \<and> (\<forall>j<length (tasks w). \<forall>c. target (pc_of w' j) = Some c \<longrightarrow> fs c = None)"
  proof (intro allI impI conjI)
    fix p assume p: "fs p \<noteq> None"
    with F[OF p] have "fsys w p \<noteq> None" by simp
    from step_keeps[OF assms(1) this] show "fsys w' p = fs p"
    proof
      assume "fsys w' p = fsys w p"
      with F[OF p] show ?thesis by simp
    next
      assume "\<exists>l. pc_of w i = Copying l p \<and> fsys w' p \<noteq> None"
      then have "target (pc_of w i) = Some p" by auto
      from T[OF i this] p show ?thesis by simp
    qed
  next
    fix j c assume j: "j < length (tasks w)" and t: "target (pc_of w' j) = Some c"
    show "fs c = None"
    proof (cases "j = i")
      case False
      with j t oth[of j] T[of j c] show ?thesis by simp
    next
      case True
      from step_target[OF assms(1), of c] t True
      consider "target (pc_of w i) = Some c" | "\<not> exists (fsys w) c" by auto
      then show ?thesis
      proof cases
        case 1
        from T[OF i 1] show ?thesis .
      next
        case 2
        then have "fsys w c = None" by (simp add: exists_def)
        with F[of c] show ?thesis by (cases "fs c") simp_all
      qed
    qed
  qed
  then show ?thesis unfolding inv_fresh_def len .
qed

lemma step_files:
  assumes "step folder i w w'"
  shows "map fst (tasks w') = map fst (tasks w)"
proof (rule nth_equalityI)
  from step_frame[OF assms] show "length (map fst (tasks w')) = length (map fst (tasks w))" by simp
next
  fix j assume "j < length (map fst (tasks w'))"
  with step_frame[OF assms] show "map fst (tasks w') ! j = map fst (tasks w) ! j"
    by (simp add: file_of_def)
qed

lemma inv_start: "inv folder fs files (start fs files)"
  by (simp add: inv_def start_def inv_knows_def inv_mutex_def inv_owner_def inv_copied_def
      inv_distinct_def inv_cand_def inv_fresh_def pc_of_def reg_ok_empty comp_def)

lemma inv_step: "inv folder fs files w \<Longrightarrow> step folder i w w' \<Longrightarrow> inv folder fs files w'"
  unfolding inv_def
  using step_files[of folder i w w'] step_inv_knows[of folder i w w'] step_inv_mutex[of folder i w w']
    step_inv_owner[of folder i w w'] step_inv_copied[of folder i w w']
    step_inv_distinct[of folder i w w'] step_inv_cand[of folder i w w']
    step_inv_fresh[of folder i w w' fs]
  by simp

lemma reaches_inv:
  assumes "reaches folder (start fs files) w"
  shows "inv folder fs files w"
  using assms unfolding reaches_def
proof (induction rule: rtranclp_induct)
  case base
  show ?case by (rule inv_start)
next
  case (step y z)
  then show ?case using inv_step by blast
qed


lemma fire_step: "fire folder i w = Some w' \<Longrightarrow> step folder i w w'"
proof -
  assume f: "fire folder i w = Some w'"
  then have i: "i < length (tasks w)" by (simp add: fire_def split: if_splits)
  have d: "dirs_added (fsys w) (fsys w)" by (simp add: dirs_added_def)
  have r: "w\<lparr>fsys := fsys w, held := h, logged := g\<rparr> = w\<lparr>held := h, logged := g\<rparr>" for h g
    by simp
  show ?thesis
  proof (cases "pc_of w i")
    case Start
    with f i show ?thesis
      by (auto simp: fire_def split: prod.splits intro: step.look_up)
  next
    case (Waiting l)
    with f i show ?thesis
      by (auto simp: fire_def split: if_splits intro: step.acquire)
  next
    case (Probing l n c)
    with f i show ?thesis
      by (auto simp: fire_def split: if_splits sum.splits
               intro: step.probe_taken step.probe_invalid step.probe_free)
  next
    case (Making l c)
    show ?thesis
    proof (cases "mkdir_parents (fsys w) (parent c)")
      case (Inr fs')
      with f i Making show ?thesis by (auto simp: fire_def intro: step.mkdir_ok)
    next
      case (Inl e)
      with f i Making have e: "is_OSError e"
        and w': "w' = set_pc i (Finished (Failed c e))
                        (w\<lparr>held := held w - {l},
                           logged := logged w @ [copy_failed (file_of w i) c e]\<rparr>)"
        by (auto simp: fire_def split: if_splits)
      from step.mkdir_raises[OF i Making e d, of folder] show ?thesis unfolding w' r .
    qed
  next
    case (Copying l c)
    show ?thesis
    proof (cases "copyfile (fsys w) (file_of w i) c")
      case (Inr fs')
      with f i Copying show ?thesis by (auto simp: fire_def intro: step.copy_ok)
    next
      case (Inl e)
      with f i Copying have e: "is_OSError e"
        and w': "w' = set_pc i (Finished (Failed c e))
                        (w\<lparr>held := held w - {l},
                           logged := logged w @ [copy_failed (file_of w i) c e]\<rparr>)"
        by (auto simp: fire_def split: if_splits)
      have c: "copy_interrupted (fsys w) c (fsys w)" by (simp add: copy_interrupted_def)
      from step.copy_raises[OF i Copying e c, of folder] show ?thesis unfolding w' r .
    qed
  next
    case (Finished x)
    with f i show ?thesis by (simp add: fire_def)
  qed
qed

lemma fire_all_reaches: "fire_all folder schedule w = Some w' \<Longrightarrow> reaches folder w w'"
proof (induction schedule arbitrary: w)
  case Nil
  then show ?case by (simp add: reaches_def)
next
  case (Cons i schedule)
  then obtain v where v: "fire folder i w = Some v" "fire_all folder schedule v = Some w'"
    by (auto split: option.splits)
  from fire_step[OF v(1)] have "(\<lambda>w w'. \<exists>i. step folder i w w') w v" by blast
  with Cons.IH[OF v(2)] show ?case
    unfolding reaches_def by (rule converse_rtranclp_into_rtranclp[rotated])
qed


text \<open>
  The runs below are evaluated with \<open>fire_all\<close>; by \<open>fire_all_reaches\<close> they are runs
  of the transition system.
\<close>

lemmas run_simps = fire_def start_def pc_of_def file_of_def set_pc_def lock_of_def getitem_def
  empty_registry_def lower_def lower_char_def name_def first_candidate_def file_extension_def
  suffix_def stem_def suffix_of_def stem_of_def has_suffix_def joinpath_def parse_path_def
  parse_root_def exists_def with_stem_def with_name_def indexed_stem_def str_nat.simps
  digit_char_def mkdir_parents.simps os_mkdir_def mkdir_exist_ok_def is_dir_at_def parent_def
  copyfile_def is_absolute_def file_exists_error_def no_such_file_def not_a_directory_def
  is_a_directory_def same_file_def




text \<open>
  C3, as stated, fails: with \<open>a.txt\<close> in two folders of the source, the first run
  makes \<open>a.txt\<close> and \<open>a (1).txt\<close>, and the second run, started in the file system the
  first one left, makes \<open>a (2).txt\<close> and \<open>a (3).txt\<close>: no file of the second run is
  named with the counter \<open>(1)\<close>.
\<close>

theorem second_run_counters_counterexample:
  "fire_all \<lparr>root = ''/'', parts = [''dist'']\<rparr> [0, 0, 0, 0, 0, 1, 1, 1, 1, 1, 1]
     (start [\<lparr>root = ''/'', parts = [''src'', ''x'', ''a.txt'']\<rparr> \<mapsto> File ''1'',
             \<lparr>root = ''/'', parts = [''src'', ''y'', ''a.txt'']\<rparr> \<mapsto> File ''2'']
        [\<lparr>root = ''/'', parts = [''src'', ''x'', ''a.txt'']\<rparr>,
         \<lparr>root = ''/'', parts = [''src'', ''y'', ''a.txt'']\<rparr>])
   = Some
     \<lparr>fsys = [\<lparr>root = ''/'', parts = [''src'', ''x'', ''a.txt'']\<rparr> \<mapsto> File ''1'',
              \<lparr>root = ''/'', parts = [''src'', ''y'', ''a.txt'']\<rparr> \<mapsto> File ''2'',
              \<lparr>root = ''/'', parts = [''dist'']\<rparr> \<mapsto> Dir,
              \<lparr>root = ''/'', parts = [''dist'', ''txt'']\<rparr> \<mapsto> Dir,
              \<lparr>root = ''/'', parts = [''dist'', ''txt'', ''a.txt'']\<rparr> \<mapsto> File ''1'',
              \<lparr>root = ''/'', parts = [''dist'', ''txt'', ''a (1).txt'']\<rparr> \<mapsto> File ''2''],
      locks = \<lparr>table = [''a.txt'' \<mapsto> 0], created = 1\<rparr>, held = {},
      logged = [copy_done \<lparr>root = ''/'', parts = [''src'', ''x'', ''a.txt'']\<rparr>
                  \<lparr>root = ''/'', parts = [''dist'', ''txt'', ''a.txt'']\<rparr>,
                copy_done \<lparr>root = ''/'', parts = [''src'', ''y'', ''a.txt'']\<rparr>
                  \<lparr>root = ''/'', parts = [''dist'', ''txt'', ''a (1).txt'']\<rparr>],
      tasks = [(\<lparr>root = ''/'', parts = [''src'', ''x'', ''a.txt'']\<rparr>,
                Finished (Copied \<lparr>root = ''/'', parts = [''dist'', ''txt'', ''a.txt'']\<rparr>)),
               (\<lparr>root = ''/'', parts = [''src'', ''y'', ''a.txt'']\<rparr>,
                Finished (Copied \<lparr>root = ''/'', parts = [''dist'', ''txt'', ''a (1).txt'']\<rparr>))]\<rparr>
   \<and> map_option (\<lambda>w. map snd (tasks w))
       (fire_all \<lparr>root = ''/'', parts = [''dist'']\<rparr>
          [0, 0, 0, 0, 0, 0, 0, 1, 1, 1, 1, 1, 1, 1, 1]
          (start [\<lparr>root = ''/'', parts = [''src'', ''x'', ''a.txt'']\<rparr> \<mapsto> File ''1'',
                  \<lparr>root = ''/'', parts = [''src'', ''y'', ''a.txt'']\<rparr> \<mapsto> File ''2'',
                  \<lparr>root = ''/'', parts = [''dist'']\<rparr> \<mapsto> Dir,
                  \<lparr>root = ''/'', parts = [''dist'', ''txt'']\<rparr> \<mapsto> Dir,
                  \<lparr>root = ''/'', parts = [''dist'', ''txt'', ''a.txt'']\<rparr> \<mapsto> File ''1'',
                  \<lparr>root = ''/'', parts = [''dist'', ''txt'', ''a (1).txt'']\<rparr> \<mapsto> File ''2'']
             [\<lparr>root = ''/'', parts = [''src'', ''x'', ''a.txt'']\<rparr>,
              \<lparr>root = ''/'', parts = [''src'', ''y'', ''a.txt'']\<rparr>]))
     = Some [Finished (Copied \<lparr>root = ''/'', parts = [''dist'', ''txt'', ''a (2).txt'']\<rparr>),
             Finished (Copied \<lparr>root = ''/'', parts = [''dist'', ''txt'', ''a (3).txt'']\<rparr>)]"
  by (simp add: run_simps)

lemma file_path_build_counter_one:
  assumes "exists fs (first_candidate file dest)"
    "with_stem (first_candidate file dest) (indexed_stem (stem file) 1) = Inr c"
    "\<not> exists fs c"
  shows "file_path_build fs file dest = Some (Inr c)"
  using assms by (simp add: file_path_build_def rename_loop.simps)

text \<open>
  C3, amended. In every world that a run of the workers reaches from the file system
  \<open>fs\<close>, whatever \<open>fs\<close> held is still there, unchanged; the path a task creates the
  folder for, copies to or has copied to was free in \<open>fs\<close> and is a candidate of the
  loop of \<open>file_path_build\<close> for its file; and a path to which a task has copied
  exists. \<open>file_path_build\<close> returns the name with the counter \<open>(1)\<close> when the first
  candidate is taken and that name is free.
\<close>

theorem second_run_keeps_files:
  "(reaches folder (start fs files) w \<longrightarrow>
      (\<forall>p. fs p \<noteq> None \<longrightarrow> fsys w p = fs p)
      \<and> (\<forall>i<length files. \<forall>l c.
            pc_of w i = Making l c \<or> pc_of w i = Copying l c \<or> pc_of w i = Finished (Copied c)
            \<longrightarrow> fs c = None \<and> (\<exists>n. candidate (files ! i) folder n = Inr c))
      \<and> (\<forall>i<length files. \<forall>c. pc_of w i = Finished (Copied c) \<longrightarrow> exists (fsys w) c))
   \<and> (exists fs (first_candidate file folder)
        \<and> with_stem (first_candidate file folder) (indexed_stem (stem file) 1) = Inr c1
        \<and> \<not> exists fs c1
      \<longrightarrow> file_path_build fs file folder = Some (Inr c1))"
proof (intro conjI impI)
  assume a: "reaches folder (start fs files) w"
  from reaches_inv[OF a] have I: "inv folder fs files w" .
  then have t: "map fst (tasks w) = files" by (simp add: inv_def)
  then have len: "length (tasks w) = length files" by (metis length_map)
  have fl: "file_of w k = files ! k" if "k < length (tasks w)" for k
    using t that unfolding file_of_def by (metis nth_map)
  from I have F: "\<And>p. fs p \<noteq> None \<Longrightarrow> fsys w p = fs p"
    and FT: "\<And>k c. k < length (tasks w) \<Longrightarrow> target (pc_of w k) = Some c \<Longrightarrow> fs c = None"
    unfolding inv_def inv_fresh_def by blast+
  from I have C: "\<And>k c. k < length (tasks w) \<Longrightarrow> copied (pc_of w k) = Some c
              \<Longrightarrow> exists (fsys w) c"
    unfolding inv_def inv_copied_def by blast
  from I have T: "\<And>k c. k < length (tasks w) \<Longrightarrow> target (pc_of w k) = Some c
              \<Longrightarrow> \<exists>n. candidate (file_of w k) folder n = Inr c"
    unfolding inv_def inv_cand_def by blast
  show "\<forall>p. fs p \<noteq> None \<longrightarrow> fsys w p = fs p" using F by blast
  show "\<forall>i<length files. \<forall>l c.
            pc_of w i = Making l c \<or> pc_of w i = Copying l c \<or> pc_of w i = Finished (Copied c)
            \<longrightarrow> fs c = None \<and> (\<exists>n. candidate (files ! i) folder n = Inr c)"
  proof (intro allI impI)
    fix i l c assume i: "i < length files"
      and p: "pc_of w i = Making l c \<or> pc_of w i = Copying l c \<or> pc_of w i = Finished (Copied c)"
    from p have "target (pc_of w i) = Some c" by auto
    with FT[of i c] T[of i c] fl[of i] i len
    show "fs c = None \<and> (\<exists>n. candidate (files ! i) folder n = Inr c)" by simp
  qed
  show "\<forall>i<length files. \<forall>c. pc_of w i = Finished (Copied c) \<longrightarrow> exists (fsys w) c"
    using C len by simp
next
  assume "exists fs (first_candidate file folder)
        \<and> with_stem (first_candidate file folder) (indexed_stem (stem file) 1) = Inr c1
        \<and> \<not> exists fs c1"
  then show "file_path_build fs file folder = Some (Inr c1)"
    using file_path_build_counter_one by blast
qed

theorem second_run_keeps_files_witness:
  "reaches \<lparr>root = ''/'', parts = [''dist'']\<rparr>
     (start [\<lparr>root = ''/'', parts = [''src'', ''a.txt'']\<rparr> \<mapsto> File ''new'',
             \<lparr>root = ''/'', parts = [''dist'']\<rparr> \<mapsto> Dir,
             \<lparr>root = ''/'', parts = [''dist'', ''txt'']\<rparr> \<mapsto> Dir,
             \<lparr>root = ''/'', parts = [''dist'', ''txt'', ''a.txt'']\<rparr> \<mapsto> File ''old'']
        [\<lparr>root = ''/'', parts = [''src'', ''a.txt'']\<rparr>])
     \<lparr>fsys = [\<lparr>root = ''/'', parts = [''src'', ''a.txt'']\<rparr> \<mapsto> File ''new'',
              \<lparr>root = ''/'', parts = [''dist'']\<rparr> \<mapsto> Dir,
              \<lparr>root = ''/'', parts = [''dist'', ''txt'']\<rparr> \<mapsto> Dir,
              \<lparr>root = ''/'', parts = [''dist'', ''txt'', ''a.txt'']\<rparr> \<mapsto> File ''old'',
              \<lparr>root = ''/'', parts = [''dist'', ''txt'', ''a (1).txt'']\<rparr> \<mapsto> File ''new''],
      locks = \<lparr>table = [''a.txt'' \<mapsto> 0], created = 1\<rparr>, held = {},
      logged = [copy_done \<lparr>root = ''/'', parts = [''src'', ''a.txt'']\<rparr>
                  \<lparr>root = ''/'', parts = [''dist'', ''txt'', ''a (1).txt'']\<rparr>],
      tasks = [(\<lparr>root = ''/'', parts = [''src'', ''a.txt'']\<rparr>,
                Finished (Copied \<lparr>root = ''/'', parts = [''dist'', ''txt'', ''a (1).txt'']\<rparr>))]\<rparr>
   \<and> (\<exists>n. candidate \<lparr>root = ''/'', parts = [''src'', ''a.txt'']\<rparr>
              \<lparr>root = ''/'', parts = [''dist'']\<rparr> n
            = Inr \<lparr>root = ''/'', parts = [''dist'', ''txt'', ''a (1).txt'']\<rparr>)
   \<and> file_path_build
         [\<lparr>root = ''/'', parts = [''src'', ''a.txt'']\<rparr> \<mapsto> File ''new'',
          \<lparr>root = ''/'', parts = [''dist'']\<rparr> \<mapsto> Dir,
          \<lparr>root = ''/'', parts = [''dist'', ''txt'']\<rparr> \<mapsto> Dir,
          \<lparr>root = ''/'', parts = [''dist'', ''txt'', ''a.txt'']\<rparr> \<mapsto> File ''old'']
         \<lparr>root = ''/'', parts = [''src'', ''a.txt'']\<rparr> \<lparr>root = ''/'', parts = [''dist'']\<rparr>
       = Some (Inr \<lparr>root = ''/'', parts = [''dist'', ''txt'', ''a (1).txt'']\<rparr>)"
proof -
  define d where "d = \<lparr>root = ''/'', parts = [''dist'']\<rparr>"
  define f where "f = \<lparr>root = ''/'', parts = [''src'', ''a.txt'']\<rparr>"
  define c0 where "c0 = \<lparr>root = ''/'', parts = [''dist'', ''txt'', ''a.txt'']\<rparr>"
  define c1 where "c1 = \<lparr>root = ''/'', parts = [''dist'', ''txt'', ''a (1).txt'']\<rparr>"
  define fs1 where "fs1 = [f \<mapsto> File ''new'', d \<mapsto> Dir,
              \<lparr>root = ''/'', parts = [''dist'', ''txt'']\<rparr> \<mapsto> Dir, c0 \<mapsto> File ''old'']"
  define w where "w =
     \<lparr>fsys = [f \<mapsto> File ''new'', d \<mapsto> Dir,
              \<lparr>root = ''/'', parts = [''dist'', ''txt'']\<rparr> \<mapsto> Dir, c0 \<mapsto> File ''old'',
              c1 \<mapsto> File ''new''],
      locks = \<lparr>table = [''a.txt'' \<mapsto> 0], created = 1\<rparr>, held = {},
      logged = [copy_done f c1],
      tasks = [(f, Finished (Copied c1))]\<rparr>"
  note defs = d_def f_def c0_def c1_def fs1_def w_def
  have "fire_all d [0, 0, 0, 0, 0, 0] (start fs1 [f]) = Some w"
    unfolding defs by (simp add: run_simps)
  then have r: "reaches d (start fs1 [f]) w" by (rule fire_all_reaches)
  have p: "pc_of w 0 = Finished (Copied c1)" unfolding w_def by (simp add: pc_of_def)
  have e: "exists fs1 (first_candidate f d)"
    "with_stem (first_candidate f d) (indexed_stem (stem f) 1) = Inr c1" "\<not> exists fs1 c1"
    unfolding defs by (simp_all add: run_simps)
  from second_run_keeps_files[of d fs1 "[f]" w f c1] r p e
  have "(\<exists>n. candidate f d n = Inr c1) \<and> file_path_build fs1 f d = Some (Inr c1)"
    by auto
  with r show ?thesis unfolding defs by blast
qed

end
